theory Spec2Isabelle
  imports Main "HOL-Library.Word" "HOL-Library.Finite_Map"
begin

section \<open>Heap objects\<close>

text \<open>
  A heap object is a header followed by its inline array of field slots
  (\<^verbatim>\<open>class HeapObject\<close> and \<^verbatim>\<open>alloc_heap_object\<close>).  An address is a natural
  number, a slot holds \<open>None\<close> for \<^verbatim>\<open>nullptr\<close> or \<open>Some a\<close>.  The header's
  \<^verbatim>\<open>field_length\<close> is the length of the slot list.  \<^verbatim>\<open>size_t\<close> is the 64-bit
  unsigned word of an LP64 target, so that \<^verbatim>\<open>fetch_sub\<close> and \<^verbatim>\<open>ref_count - 1\<close>
  wrap around as they do in the source.

  The heap is a finite map from addresses to objects.  Dereferencing an address
  that holds no object is undefined behaviour in the source; the functions
  below return \<open>None\<close> there.  \<^verbatim>\<open>lock()\<close> spins while the flag is set: in a
  single thread of control it never returns when the flag is already set,
  which is \<open>None\<close> as well.
\<close>

type_synonym addr = nat
type_synonym size_t = "64 word"

record HeapObject =
  reference_count :: size_t
  obj_fields :: "addr option list"
  is_mutex :: bool
  spin_lock_flag :: bool
  is_cyclic_type :: bool
  ready_to_release_with_gc :: bool
  buffered :: bool

type_synonym heap = "(addr, HeapObject) fmap"

definition field_length :: "HeapObject \<Rightarrow> nat" where
  "field_length ob = length (obj_fields ob)"

definition alloc_heap_object :: "nat \<Rightarrow> HeapObject" where
  "alloc_heap_object n =
     \<lparr>reference_count = 1, obj_fields = replicate n None, is_mutex = False,
      spin_lock_flag = False, is_cyclic_type = False,
      ready_to_release_with_gc = False, buffered = False\<rparr>"

definition lock :: "addr \<Rightarrow> heap \<Rightarrow> heap option" where
  "lock a h =
     (case fmlookup h a of
        None \<Rightarrow> None
      | Some ob \<Rightarrow>
          if spin_lock_flag ob then None
          else Some (fmupd a (ob\<lparr>spin_lock_flag := True\<rparr>) h))"

definition unlock :: "addr \<Rightarrow> heap \<Rightarrow> heap option" where
  "unlock a h =
     (case fmlookup h a of
        None \<Rightarrow> None
      | Some ob \<Rightarrow> Some (fmupd a (ob\<lparr>spin_lock_flag := False\<rparr>) h))"

text \<open>The slots of the object at an address (read after a successful dereference).\<close>

definition fields_of :: "heap \<Rightarrow> addr \<Rightarrow> addr option list" where
  "fields_of h a = (case fmlookup h a of None \<Rightarrow> [] | Some ob \<Rightarrow> obj_fields ob)"

text \<open>The edges of the object graph and the closure reachable from an object.\<close>

definition edges :: "heap \<Rightarrow> (addr \<times> addr) set" where
  "edges h = {(a, b). Some b \<in> set (fields_of h a)}"

definition reach :: "heap \<Rightarrow> addr \<Rightarrow> addr set" where
  "reach h a = (edges h)\<^sup>* `` {a}"

definition locked :: "heap \<Rightarrow> addr \<Rightarrow> bool" where
  "locked h a = (case fmlookup h a of None \<Rightarrow> False | Some ob \<Rightarrow> spin_lock_flag ob)"

section \<open>The colours of the scan\<close>

datatype object_color = red | gray | white | black

type_synonym color_map = "addr \<rightharpoonup> object_color"
type_synonym count_map = "addr \<rightharpoonup> size_t"

section \<open>Mark red\<close>

text \<open>
  \<^verbatim>\<open>mark_red(root, current_object, color_map, collect_objects, is_cyclic_root)\<close>.
  The state threaded through the recursion is the heap (whose lock flags
  change), the colour map, the list of collected objects and the flag.  The
  \<^verbatim>\<open>for\<close> loop over the slots is \<open>mark_red_fields\<close>.
\<close>

type_synonym red_state = "heap \<times> color_map \<times> addr list \<times> bool"

function mark_red :: "addr \<Rightarrow> addr \<Rightarrow> red_state \<Rightarrow> red_state option"
  and mark_red_fields :: "addr \<Rightarrow> addr option list \<Rightarrow> red_state \<Rightarrow> red_state option"
where
  "mark_red root current_object (h, color_map, collect_objects, is_cyclic_root) =
     (if color_map current_object \<noteq> None
      then Some (h, color_map, collect_objects, is_cyclic_root)
      else case lock current_object h of
             None \<Rightarrow> None
           | Some h' \<Rightarrow>
               mark_red_fields root (fields_of h' current_object)
                 (h', color_map(current_object \<mapsto> red),
                  collect_objects @ [current_object], is_cyclic_root))"
| "mark_red_fields root [] st = Some st"
| "mark_red_fields root (None # fs) st = mark_red_fields root fs st"
| "mark_red_fields root (Some field_object # fs)
       (h, color_map, collect_objects, is_cyclic_root) =
     (case mark_red root field_object
             (h, color_map, collect_objects, is_cyclic_root \<or> field_object = root) of
        None \<Rightarrow> None
      | Some st' \<Rightarrow> mark_red_fields root fs st')"
  by pat_completeness auto

lemma lock_dom: "lock a h = Some h' \<Longrightarrow> a \<in> fmdom' h \<and> fmdom' h' = fmdom' h"
  by (auto simp: lock_def fmdom'I split: option.splits if_splits)

lemma unlock_dom: "unlock a h = Some h' \<Longrightarrow> a \<in> fmdom' h \<and> fmdom' h' = fmdom' h"
  by (auto simp: unlock_def fmdom'I split: option.splits if_splits)

text \<open>The part of the heap that carries no colour yet: the measure of the scan.\<close>

definition uncolored :: "red_state \<Rightarrow> addr set" where
  "uncolored st = (case st of (h, cm, co, cyc) \<Rightarrow> fmdom' h - dom cm)"

lemma finite_uncolored: "finite (uncolored st)"
  by (cases st) (simp add: uncolored_def)

lemma mark_red_uncolored_dom:
  "mark_red_mark_red_fields_dom (Inl (root, cur, st)) \<Longrightarrow>
     mark_red root cur st = Some st' \<Longrightarrow> uncolored st' \<subseteq> uncolored st"
  "mark_red_mark_red_fields_dom (Inr (root, fs, st)) \<Longrightarrow>
     mark_red_fields root fs st = Some st' \<Longrightarrow> uncolored st' \<subseteq> uncolored st"
proof (induction root cur st and root fs st arbitrary: st' and st'
    rule: mark_red_mark_red_fields.pinduct)
  case (1 root cur h cm co cyc)
  show ?case
  proof (cases "cm cur \<noteq> None")
    case True
    with 1 show ?thesis by (simp add: mark_red.psimps)
  next
    case False
    then obtain h' where l: "lock cur h = Some h'"
      and r: "mark_red_fields root (fields_of h' cur) (h', cm(cur \<mapsto> red), co @ [cur], cyc) = Some st'"
      using 1(1,3) by (auto simp: mark_red.psimps split: option.splits)
    from 1(2) [OF _ l r] False
    have "uncolored st' \<subseteq> uncolored (h', cm(cur \<mapsto> red), co @ [cur], cyc)" by simp
    with lock_dom [OF l] show ?thesis by (auto simp: uncolored_def)
  qed
next
  case (2 root st)
  then show ?case by (simp add: mark_red_fields.psimps)
next
  case (3 root fs st)
  then show ?case by (simp add: mark_red_fields.psimps)
next
  case (4 root f fs h cm co cyc)
  from 4(1,4) obtain st1 where
    a: "mark_red root f (h, cm, co, cyc \<or> f = root) = Some st1"
    and b: "mark_red_fields root fs st1 = Some st'"
    by (auto simp: mark_red_fields.psimps split: option.splits)
  from 4(2) [OF a] have "uncolored st1 \<subseteq> uncolored (h, cm, co, cyc \<or> f = root)" .
  moreover from 4(3) [OF a b] have "uncolored st' \<subseteq> uncolored st1" .
  ultimately show ?case by (auto simp: uncolored_def)
qed

termination mark_red
proof (relation "inv_image (finite_psubset <*lex*> less_than)
    (\<lambda>x. case x of Inl (root, cur, st) \<Rightarrow> (uncolored st, 0)
                 | Inr (root, fs, st) \<Rightarrow> (uncolored st, Suc (length fs)))", goal_cases)
  case 1
  show ?case by (intro wf_inv_image wf_lex_prod wf_finite_psubset wf_less_than)
next
  case (2 root cur h cm co cyc h')
  then show ?case
    using lock_dom [of cur h h']
    by (auto simp: finite_psubset_def uncolored_def)
next
  case 3
  then show ?case by simp
next
  case 4
  then show ?case by (simp add: uncolored_def)
next
  case (5 root f fs h cm co cyc st1)
  from mark_red_uncolored_dom(1) [OF 5(2) 5(1)]
  have "uncolored st1 \<subseteq> uncolored (h, cm, co, cyc)" by (simp add: uncolored_def)
  then show ?case
    by (auto simp: finite_psubset_def finite_uncolored)
qed


declare mark_red.simps [simp del]

section \<open>What mark red establishes\<close>

text \<open>Taking the locks of a list of objects one after the other.\<close>

fun lock_all :: "addr list \<Rightarrow> heap \<Rightarrow> heap option" where
  "lock_all [] h = Some h"
| "lock_all (a # as) h = (case lock a h of None \<Rightarrow> None | Some h' \<Rightarrow> lock_all as h')"

lemma lock_all_append:
  "lock_all (xs @ ys) h = (case lock_all xs h of None \<Rightarrow> None | Some h' \<Rightarrow> lock_all ys h')"
  by (induction xs arbitrary: h) (auto split: option.splits)

lemma lock_lookup:
  "lock a h = Some h' \<Longrightarrow>
     fmlookup h' x = (if x = a then map_option (\<lambda>ob. ob\<lparr>spin_lock_flag := True\<rparr>) (fmlookup h a)
                      else fmlookup h x)"
  by (auto simp: lock_def split: option.splits if_splits)

lemma lock_fields_of: "lock a h = Some h' \<Longrightarrow> fields_of h' x = fields_of h x"
  by (auto simp: lock_def fields_of_def split: option.splits if_splits)

lemma lock_locked: "lock a h = Some h' \<Longrightarrow> \<not> locked h a \<and> (locked h' x \<longleftrightarrow> x = a \<or> locked h x)"
  by (auto simp: lock_def locked_def split: option.splits if_splits)

lemma lock_all_fields_of: "lock_all as h = Some h' \<Longrightarrow> fields_of h' x = fields_of h x"
  by (induction as arbitrary: h) (auto split: option.splits simp: lock_fields_of)

lemma lock_all_dom: "lock_all as h = Some h' \<Longrightarrow> set as \<subseteq> fmdom' h \<and> fmdom' h' = fmdom' h"
proof (induction as arbitrary: h)
  case Nil
  then show ?case by simp
next
  case (Cons a as)
  then obtain h1 where l: "lock a h = Some h1" and r: "lock_all as h1 = Some h'"
    by (auto split: option.splits)
  from Cons.IH [OF r] lock_dom [OF l] show ?case by auto
qed

lemma lock_all_locked:
  "lock_all as h = Some h' \<Longrightarrow>
     distinct as \<and> (\<forall>a\<in>set as. \<not> locked h a) \<and> (locked h' x \<longleftrightarrow> x \<in> set as \<or> locked h x)"
proof (induction as arbitrary: h)
  case Nil
  then show ?case by simp
next
  case (Cons a as)
  then obtain h1 where l: "lock a h = Some h1" and r: "lock_all as h1 = Some h'"
    by (auto split: option.splits)
  from Cons.IH [OF r] lock_locked [OF l] show ?case by auto
qed

lemma lock_all_other: "lock_all as h = Some h' \<Longrightarrow> x \<notin> set as \<Longrightarrow> fmlookup h' x = fmlookup h x"
proof (induction as arbitrary: h)
  case Nil
  then show ?case by simp
next
  case (Cons a as)
  then obtain h1 where l: "lock a h = Some h1" and r: "lock_all as h1 = Some h'"
    by (auto split: option.splits)
  from Cons.prems(2) have "x \<noteq> a" "x \<notin> set as" by auto
  with Cons.IH [OF r] lock_lookup [OF l, of x] show ?case by simp
qed

lemma edges_cong: "(\<And>x. fields_of h' x = fields_of h x) \<Longrightarrow> edges h' = edges h"
  by (simp add: edges_def)

lemma reach_cong: "(\<And>x. fields_of h' x = fields_of h x) \<Longrightarrow> reach h' a = reach h a"
  unfolding reach_def by (drule edges_cong) simp

text \<open>
  How a state of the scan extends an earlier one: the list grows by the newly
  coloured objects, each of them red and locked once, in the order of the list;
  nothing else changes.
\<close>

definition red_ext :: "red_state \<Rightarrow> red_state \<Rightarrow> bool" where
  "red_ext st st' =
     (case st of (h, cm, co, cyc) \<Rightarrow> case st' of (h', cm', co', cyc') \<Rightarrow>
        (\<exists>new. co' = co @ new \<and> lock_all new h = Some h' \<and>
           dom cm' = dom cm \<union> set new \<and> set new \<inter> dom cm = {} \<and>
           (\<forall>x\<in>dom cm. cm' x = cm x) \<and> (\<forall>x\<in>set new. cm' x = Some red)))"

lemma red_ext_refl: "red_ext (h, cm, co, cyc) (h, cm, co, cyc')"
  by (simp add: red_ext_def)

lemma red_ext_trans:
  assumes "red_ext st st1" "red_ext st1 st2"
  shows "red_ext st st2"
proof -
  obtain h cm co cyc where st: "st = (h, cm, co, cyc)" by (cases st)
  obtain h1 cm1 co1 cyc1 where st1: "st1 = (h1, cm1, co1, cyc1)" by (cases st1)
  obtain h2 cm2 co2 cyc2 where st2: "st2 = (h2, cm2, co2, cyc2)" by (cases st2)
  from assms(1) obtain n1 where n1: "co1 = co @ n1" "lock_all n1 h = Some h1"
    "dom cm1 = dom cm \<union> set n1" "set n1 \<inter> dom cm = {}"
    "\<forall>x\<in>dom cm. cm1 x = cm x" "\<forall>x\<in>set n1. cm1 x = Some red"
    unfolding red_ext_def st st1 by auto
  from assms(2) obtain n2 where n2: "co2 = co1 @ n2" "lock_all n2 h1 = Some h2"
    "dom cm2 = dom cm1 \<union> set n2" "set n2 \<inter> dom cm1 = {}"
    "\<forall>x\<in>dom cm1. cm2 x = cm1 x" "\<forall>x\<in>set n2. cm2 x = Some red"
    unfolding red_ext_def st1 st2 by auto
  have a: "co2 = co @ (n1 @ n2)" using n1(1) n2(1) by simp
  have b: "lock_all (n1 @ n2) h = Some h2" using n1(2) n2(2) by (simp add: lock_all_append)
  have c: "dom cm2 = dom cm \<union> set (n1 @ n2)" using n1(3) n2(3) by auto
  have d: "set (n1 @ n2) \<inter> dom cm = {}" using n1(3,4) n2(4) by auto
  have e: "\<forall>x\<in>dom cm. cm2 x = cm x" using n1(3,5) n2(5) by auto
  have f: "\<forall>x\<in>set (n1 @ n2). cm2 x = Some red"
  proof
    fix x assume "x \<in> set (n1 @ n2)"
    then consider "x \<in> set n1" | "x \<in> set n2" by auto
    then show "cm2 x = Some red"
    proof cases
      case 1
      then have "x \<in> dom cm1" using n1(3) by auto
      with n2(5) n1(6) 1 show ?thesis by auto
    next
      case 2
      with n2(6) show ?thesis by auto
    qed
  qed
  have "\<exists>new. co2 = co @ new \<and> lock_all new h = Some h2 \<and>
           dom cm2 = dom cm \<union> set new \<and> set new \<inter> dom cm = {} \<and>
           (\<forall>x\<in>dom cm. cm2 x = cm x) \<and> (\<forall>x\<in>set new. cm2 x = Some red)"
    by (rule exI [of _ "n1 @ n2"], intro conjI) (rule a b c d e f)+
  then show ?thesis unfolding red_ext_def st st2 by simp
qed

lemma red_ext_step:
  assumes "cm cur = None" "lock cur h = Some h'"
  shows "red_ext (h, cm, co, cyc) (h', cm(cur \<mapsto> red), co @ [cur], cyc)"
proof -
  have a: "co @ [cur] = co @ [cur]" by simp
  have b: "lock_all [cur] h = Some h'" using assms(2) by simp
  have c: "dom (cm(cur \<mapsto> red)) = dom cm \<union> set [cur]" by auto
  have d: "set [cur] \<inter> dom cm = {}" using assms(1) by auto
  have e: "\<forall>x\<in>dom cm. (cm(cur \<mapsto> red)) x = cm x" using assms(1) by auto
  have f: "\<forall>x\<in>set [cur]. (cm(cur \<mapsto> red)) x = Some red" by simp
  have "\<exists>new. co @ [cur] = co @ new \<and> lock_all new h = Some h' \<and>
           dom (cm(cur \<mapsto> red)) = dom cm \<union> set new \<and> set new \<inter> dom cm = {} \<and>
           (\<forall>x\<in>dom cm. (cm(cur \<mapsto> red)) x = cm x) \<and>
           (\<forall>x\<in>set new. (cm(cur \<mapsto> red)) x = Some red)"
    by (rule exI [of _ "[cur]"], intro conjI) (rule a b c d e f)+
  then show ?thesis unfolding red_ext_def by simp
qed

lemma mark_red_ext:
  "mark_red root cur st = Some st' \<Longrightarrow> red_ext st st'"
  "mark_red_fields root fs st = Some st' \<Longrightarrow> red_ext st st'"
proof (induction root cur st and root fs st arbitrary: st' and st'
    rule: mark_red_mark_red_fields.induct)
  case (1 root cur h cm co cyc)
  show ?case
  proof (cases "cm cur \<noteq> None")
    case True
    with 1(2) show ?thesis by (auto simp: red_ext_refl mark_red.simps)
  next
    case False
    then obtain h' where l: "lock cur h = Some h'"
      and r: "mark_red_fields root (fields_of h' cur) (h', cm(cur \<mapsto> red), co @ [cur], cyc) = Some st'"
      using 1(2) by (auto simp: mark_red.simps split: option.splits)
    from 1(1) [OF _ l r] False
    have "red_ext (h', cm(cur \<mapsto> red), co @ [cur], cyc) st'" by simp
    moreover have "red_ext (h, cm, co, cyc) (h', cm(cur \<mapsto> red), co @ [cur], cyc)"
      using False l by (intro red_ext_step) auto
    ultimately show ?thesis by (rule red_ext_trans [rotated])
  qed
next
  case (2 root st)
  then show ?case by (cases st) (auto simp: red_ext_refl)
next
  case (3 root fs st)
  then show ?case by simp
next
  case (4 root f fs h cm co cyc)
  from 4(3) obtain st1 where
    a: "mark_red root f (h, cm, co, cyc \<or> f = root) = Some st1"
    and b: "mark_red_fields root fs st1 = Some st'"
    by (auto split: option.splits)
  have "red_ext (h, cm, co, cyc) (h, cm, co, cyc \<or> f = root)" by (rule red_ext_refl)
  moreover from 4(1) [OF a] have "red_ext (h, cm, co, cyc \<or> f = root) st1" .
  moreover from 4(2) [OF a b] have "red_ext st1 st'" .
  ultimately show ?case by (blast intro: red_ext_trans)
qed


lemma red_ext_mono:
  assumes "red_ext (h, cm, co, cyc) (h', cm', co', cyc')"
  shows "dom cm \<subseteq> dom cm'" "edges h' = edges h" "fmdom' h' = fmdom' h"
    "\<And>x. x \<notin> dom cm' \<Longrightarrow> fmlookup h' x = fmlookup h x"
proof -
  from assms obtain new where n: "co' = co @ new" "lock_all new h = Some h'"
    "dom cm' = dom cm \<union> set new"
    unfolding red_ext_def by auto
  show "dom cm \<subseteq> dom cm'" using n(3) by auto
  show "edges h' = edges h" by (rule edges_cong) (rule lock_all_fields_of [OF n(2)])
  show "fmdom' h' = fmdom' h" using lock_all_dom [OF n(2)] by simp
  show "fmlookup h' x = fmlookup h x" if "x \<notin> dom cm'" for x
    using that n(3) lock_all_other [OF n(2), of x] by auto
qed

text \<open>
  What a call adds: every newly coloured object is reachable from the start
  set \<open>S\<close>, all its successors are coloured, and the flag records whether an
  edge to the root was met.
\<close>

definition red_post :: "addr \<Rightarrow> addr set \<Rightarrow> bool \<Rightarrow> red_state \<Rightarrow> red_state \<Rightarrow> bool" where
  "red_post root S c st st' =
     (case st of (h, cm, co, cyc) \<Rightarrow> case st' of (h', cm', co', cyc') \<Rightarrow>
        S \<subseteq> dom cm' \<and>
        (\<forall>x\<in>dom cm' - dom cm. x \<in> (edges h)\<^sup>* `` S \<and> edges h `` {x} \<subseteq> dom cm') \<and>
        (cyc' \<longleftrightarrow> cyc \<or> c \<or> (\<exists>x\<in>dom cm' - dom cm. (x, root) \<in> edges h)))"

lemma red_post_comp:
  assumes p1: "red_post root S1 c1 (h, cm, co, cyc) (h1, cm1, co1, cyc1)"
    and p2: "red_post root S2 c2 (h1, cm1, co1, cyc1) (h2, cm2, co2, cyc2)"
    and d1: "dom cm \<subseteq> dom cm1" and d2: "dom cm1 \<subseteq> dom cm2" and e: "edges h1 = edges h"
  shows "red_post root (S1 \<union> S2) (c1 \<or> c2) (h, cm, co, cyc) (h2, cm2, co2, cyc2)"
proof -
  let ?E = "edges h"
  from p1 have a1: "S1 \<subseteq> dom cm1"
    and b1: "\<And>x. x \<in> dom cm1 \<Longrightarrow> x \<notin> dom cm \<Longrightarrow> x \<in> ?E\<^sup>* `` S1 \<and> ?E `` {x} \<subseteq> dom cm1"
    and c1: "cyc1 \<longleftrightarrow> cyc \<or> c1 \<or> (\<exists>x\<in>dom cm1 - dom cm. (x, root) \<in> ?E)"
    unfolding red_post_def by auto
  from p2 e have a2: "S2 \<subseteq> dom cm2"
    and b2: "\<And>x. x \<in> dom cm2 \<Longrightarrow> x \<notin> dom cm1 \<Longrightarrow> x \<in> ?E\<^sup>* `` S2 \<and> ?E `` {x} \<subseteq> dom cm2"
    and c2: "cyc2 \<longleftrightarrow> cyc1 \<or> c2 \<or> (\<exists>x\<in>dom cm2 - dom cm1. (x, root) \<in> ?E)"
    unfolding red_post_def by auto
  have A: "S1 \<union> S2 \<subseteq> dom cm2" using a1 a2 d2 by auto
  have B: "x \<in> ?E\<^sup>* `` (S1 \<union> S2) \<and> ?E `` {x} \<subseteq> dom cm2"
    if "x \<in> dom cm2 - dom cm" for x
  proof (cases "x \<in> dom cm1")
    case True
    with that b1 [of x] d2 show ?thesis by blast
  next
    case False
    with that b2 [of x] show ?thesis by blast
  qed
  have split: "dom cm2 - dom cm = (dom cm1 - dom cm) \<union> (dom cm2 - dom cm1)"
    using d1 d2 by auto
  have C: "cyc2 \<longleftrightarrow> cyc \<or> (c1 \<or> c2) \<or> (\<exists>x\<in>dom cm2 - dom cm. (x, root) \<in> ?E)"
    unfolding split c2 c1 by blast
  show ?thesis unfolding red_post_def using A B C by simp
qed

lemma red_post_mark:
  assumes p: "red_post root (edges h `` {cur}) ((cur, root) \<in> edges h)
                (h', cm(cur \<mapsto> red), co', cyc) (h2, cm2, co2, cyc2)"
    and n: "cm cur = None" and e: "edges h' = edges h" and d: "dom (cm(cur \<mapsto> red)) \<subseteq> dom cm2"
  shows "red_post root {cur} False (h, cm, co, cyc) (h2, cm2, co2, cyc2)"
proof -
  let ?E = "edges h"
  from p e have a: "?E `` {cur} \<subseteq> dom cm2"
    and b: "\<And>x. x \<in> dom cm2 \<Longrightarrow> x \<noteq> cur \<Longrightarrow> x \<notin> dom cm \<Longrightarrow>
               x \<in> ?E\<^sup>* `` (?E `` {cur}) \<and> ?E `` {x} \<subseteq> dom cm2"
    and c: "cyc2 \<longleftrightarrow> cyc \<or> (cur, root) \<in> ?E \<or>
               (\<exists>x\<in>dom cm2 - dom (cm(cur \<mapsto> red)). (x, root) \<in> ?E)"
    unfolding red_post_def by auto
  have cur: "cur \<in> dom cm2" using d by auto
  have B: "x \<in> ?E\<^sup>* `` {cur} \<and> ?E `` {x} \<subseteq> dom cm2" if "x \<in> dom cm2 - dom cm" for x
  proof (cases "x = cur")
    case True
    with a show ?thesis by auto
  next
    case False
    with that b [of x] have "x \<in> ?E\<^sup>* `` (?E `` {cur})" and s: "?E `` {x} \<subseteq> dom cm2" by auto
    then obtain y where "(cur, y) \<in> ?E" "(y, x) \<in> ?E\<^sup>*" by auto
    then have "(cur, x) \<in> ?E\<^sup>*" by (rule converse_rtrancl_into_rtrancl)
    with s show ?thesis by auto
  qed
  have split: "dom cm2 - dom cm = insert cur (dom cm2 - dom (cm(cur \<mapsto> red)))"
    using cur n by auto
  have C: "cyc2 \<longleftrightarrow> cyc \<or> False \<or> (\<exists>x\<in>dom cm2 - dom cm. (x, root) \<in> ?E)"
    unfolding split c by blast
  show ?thesis unfolding red_post_def using cur B C by simp
qed

lemma red_post_flag:
  "red_post root S c (h, cm, co, cyc \<or> b) st' \<Longrightarrow> red_post root S (b \<or> c) (h, cm, co, cyc) st'"
  unfolding red_post_def by (cases st') auto

lemma edges_Image: "edges h `` {a} = {f. Some f \<in> set (fields_of h a)}"
  by (auto simp: edges_def)

lemma mark_red_post:
  "mark_red root cur st = Some st' \<Longrightarrow> red_post root {cur} False st st'"
  "mark_red_fields root fs st = Some st' \<Longrightarrow>
     red_post root {f. Some f \<in> set fs} (Some root \<in> set fs) st st'"
proof (induction root cur st and root fs st arbitrary: st' and st'
    rule: mark_red_mark_red_fields.induct)
  case (1 root cur h cm co cyc)
  obtain h2 cm2 co2 cyc2 where st': "st' = (h2, cm2, co2, cyc2)" by (cases st')
  show ?case
  proof (cases "cm cur \<noteq> None")
    case True
    with 1(2) have "st' = (h, cm, co, cyc)" by (simp add: mark_red.simps)
    with True show ?thesis by (auto simp: red_post_def)
  next
    case False
    then obtain h' where l: "lock cur h = Some h'"
      and r: "mark_red_fields root (fields_of h' cur) (h', cm(cur \<mapsto> red), co @ [cur], cyc) = Some st'"
      using 1(2) by (auto simp: mark_red.simps split: option.splits)
    have f: "fields_of h' cur = fields_of h cur" by (rule lock_fields_of [OF l])
    have e: "edges h' = edges h" by (rule edges_cong) (rule lock_fields_of [OF l])
    from 1(1) [OF _ l r] False
    have "red_post root {f. Some f \<in> set (fields_of h' cur)} (Some root \<in> set (fields_of h' cur))
            (h', cm(cur \<mapsto> red), co @ [cur], cyc) st'" by simp
    then have p: "red_post root (edges h `` {cur}) ((cur, root) \<in> edges h)
            (h', cm(cur \<mapsto> red), co @ [cur], cyc) (h2, cm2, co2, cyc2)"
      unfolding f st' edges_Image by (simp add: edges_def)
    from mark_red_ext(2) [OF r] have d: "dom (cm(cur \<mapsto> red)) \<subseteq> dom cm2"
      unfolding st' by (rule red_ext_mono(1))
    have n: "cm cur = None" using False by simp
    show ?thesis unfolding st' by (rule red_post_mark [OF p n e d])
  qed
next
  case (2 root st)
  then show ?case by (cases st) (auto simp: red_post_def)
next
  case (3 root fs st)
  then show ?case by simp
next
  case (4 root f fs h cm co cyc)
  obtain h2 cm2 co2 cyc2 where st': "st' = (h2, cm2, co2, cyc2)" by (cases st')
  from 4(3) obtain st1 where
    a: "mark_red root f (h, cm, co, cyc \<or> f = root) = Some st1"
    and b: "mark_red_fields root fs st1 = Some st'"
    by (auto split: option.splits)
  obtain h1 cm1 co1 cyc1 where st1: "st1 = (h1, cm1, co1, cyc1)" by (cases st1)
  from 4(1) [OF a] have "red_post root {f} False (h, cm, co, cyc \<or> f = root) st1" .
  then have p1: "red_post root {f} (f = root) (h, cm, co, cyc) (h1, cm1, co1, cyc1)"
    unfolding st1 by (drule_tac red_post_flag) simp
  from 4(2) [OF a b]
  have p2: "red_post root {f. Some f \<in> set fs} (Some root \<in> set fs) (h1, cm1, co1, cyc1) (h2, cm2, co2, cyc2)"
    unfolding st1 st' .
  note m1 = red_ext_mono [OF mark_red_ext(1) [OF a, unfolded st1]]
  note m2 = red_ext_mono [OF mark_red_ext(2) [OF b, unfolded st1 st']]
  have "red_post root ({f} \<union> {f. Some f \<in> set fs}) (f = root \<or> Some root \<in> set fs)
          (h, cm, co, cyc) (h2, cm2, co2, cyc2)"
    by (rule red_post_comp [OF p1 p2 m1(1) m2(1) m1(2)])
  moreover have "{f} \<union> {f. Some f \<in> set fs} = {g. Some g \<in> set (Some f # fs)}" by auto
  moreover have "(f = root \<or> Some root \<in> set fs) = (Some root \<in> set (Some f # fs))" by auto
  ultimately show ?case unfolding st' by simp
qed


text \<open>
  When the scan cannot block: every object it still has to colour is allocated
  and its lock is free.
\<close>

definition red_ok :: "addr set \<Rightarrow> red_state \<Rightarrow> bool" where
  "red_ok S st =
     (case st of (h, cm, co, cyc) \<Rightarrow>
        \<forall>x\<in>(edges h)\<^sup>* `` S. x \<notin> dom cm \<longrightarrow> x \<in> fmdom' h \<and> \<not> locked h x)"

lemma lock_succeeds: "a \<in> fmdom' h \<Longrightarrow> \<not> locked h a \<Longrightarrow> \<exists>h'. lock a h = Some h'"
  by (auto simp: lock_def locked_def fmdom'_alt_def fmlookup_dom_iff split: option.splits)

lemma mark_red_succeeds:
  "red_ok {cur} st \<Longrightarrow> mark_red root cur st \<noteq> None"
  "red_ok {f. Some f \<in> set fs} st \<Longrightarrow> mark_red_fields root fs st \<noteq> None"
proof (induction root cur st and root fs st rule: mark_red_mark_red_fields.induct)
  case (1 root cur h cm co cyc)
  let ?E = "edges h"
  from 1(2) have ok: "\<And>x. x \<in> ?E\<^sup>* `` {cur} \<Longrightarrow> x \<notin> dom cm \<Longrightarrow> x \<in> fmdom' h \<and> \<not> locked h x"
    unfolding red_ok_def by auto
  show ?case
  proof (cases "cm cur \<noteq> None")
    case True
    then show ?thesis by (simp add: mark_red.simps)
  next
    case False
    then have "cur \<in> fmdom' h \<and> \<not> locked h cur" using ok [of cur] by auto
    then obtain h' where l: "lock cur h = Some h'" using lock_succeeds by blast
    have e: "edges h' = edges h" by (rule edges_cong) (rule lock_fields_of [OF l])
    have "red_ok {f. Some f \<in> set (fields_of h' cur)} (h', cm(cur \<mapsto> red), co @ [cur], cyc)"
      unfolding red_ok_def prod.case e
    proof (intro ballI impI)
      fix x assume x: "x \<in> ?E\<^sup>* `` {f. Some f \<in> set (fields_of h' cur)}"
        and nx: "x \<notin> dom (cm(cur \<mapsto> red))"
      from x obtain f where "Some f \<in> set (fields_of h cur)" "(f, x) \<in> ?E\<^sup>*"
        unfolding lock_fields_of [OF l] by auto
      then have "(cur, f) \<in> ?E" "(f, x) \<in> ?E\<^sup>*" by (auto simp: edges_def)
      then have "(cur, x) \<in> ?E\<^sup>*" by (rule converse_rtrancl_into_rtrancl)
      moreover from nx have "x \<noteq> cur" "x \<notin> dom cm" by auto
      ultimately have "x \<in> fmdom' h \<and> \<not> locked h x" using ok [of x] by auto
      with lock_dom [OF l] lock_locked [OF l, of x] \<open>x \<noteq> cur\<close>
      show "x \<in> fmdom' h' \<and> \<not> locked h' x" by auto
    qed
    from 1(1) [OF _ l this] False l show ?thesis by (simp add: mark_red.simps)
  qed
next
  case (2 root st)
  then show ?case by simp
next
  case (3 root fs st)
  have "{f. Some f \<in> set (None # fs)} = {f. Some f \<in> set fs}" by auto
  with 3 show ?case by simp
next
  case (4 root f fs h cm co cyc)
  let ?E = "edges h"
  from 4(3) have ok: "\<And>x g. Some g \<in> set (Some f # fs) \<Longrightarrow> (g, x) \<in> ?E\<^sup>* \<Longrightarrow> x \<notin> dom cm
                        \<Longrightarrow> x \<in> fmdom' h \<and> \<not> locked h x"
    unfolding red_ok_def by auto
  have "red_ok {f} (h, cm, co, cyc \<or> f = root)"
    unfolding red_ok_def using ok [of f] by auto
  from 4(1) [OF this] obtain st1 where
    a: "mark_red root f (h, cm, co, cyc \<or> f = root) = Some st1" by auto
  obtain h1 cm1 co1 cyc1 where st1: "st1 = (h1, cm1, co1, cyc1)" by (cases st1)
  note m = red_ext_mono [OF mark_red_ext(1) [OF a, unfolded st1]]
  have "red_ok {g. Some g \<in> set fs} st1"
    unfolding red_ok_def st1 prod.case m(2)
  proof (intro ballI impI)
    fix x assume x: "x \<in> ?E\<^sup>* `` {g. Some g \<in> set fs}" and nx: "x \<notin> dom cm1"
    from x obtain g where "Some g \<in> set (Some f # fs)" "(g, x) \<in> ?E\<^sup>*" by auto
    moreover from nx m(1) have "x \<notin> dom cm" by auto
    ultimately have "x \<in> fmdom' h \<and> \<not> locked h x" by (rule ok)
    with m(3) m(4) [OF nx] show "x \<in> fmdom' h1 \<and> \<not> locked h1 x"
      by (simp add: locked_def)
  qed
  from 4(2) [OF a this] a show ?case by simp
qed

lemma reach_closed_subset:
  assumes "a \<in> S" "\<And>x. x \<in> S \<Longrightarrow> edges h `` {x} \<subseteq> S"
  shows "reach h a \<subseteq> S"
proof
  fix x assume "x \<in> reach h a"
  then have "(a, x) \<in> (edges h)\<^sup>*" by (simp add: reach_def)
  then show "x \<in> S"
    by (induction rule: rtrancl_induct) (use assms in auto)
qed

section \<open>Example heaps\<close>

definition example_object :: "size_t \<Rightarrow> addr option list \<Rightarrow> HeapObject" where
  "example_object rc fs =
     \<lparr>reference_count = rc, obj_fields = fs, is_mutex = False,
      spin_lock_flag = False, is_cyclic_type = True,
      ready_to_release_with_gc = False, buffered = False\<rparr>"

text \<open>Two objects that reference each other and nothing else does.\<close>

definition two_cycle :: heap where
  "two_cycle = fmupd 0 (example_object 1 [Some 1]) (fmupd 1 (example_object 1 [Some 0]) fmempty)"

lemma two_cycle_reach: "reach two_cycle 0 \<subseteq> {0, 1}"
  by (rule reach_closed_subset)
    (auto simp: edges_def fields_of_def two_cycle_def example_object_def split: if_splits)

lemma mark_red_result:
  assumes "\<forall>x\<in>reach h root. x \<in> fmdom' h \<and> \<not> locked h x"
  shows "\<exists>h' color_map collect_objects is_cyclic_root.
           mark_red root root (h, Map.empty, [], False)
             = Some (h', color_map, collect_objects, is_cyclic_root) \<and>
           (\<forall>x. color_map x = (if x \<in> reach h root then Some red else None)) \<and>
           distinct collect_objects \<and> set collect_objects = reach h root \<and>
           lock_all collect_objects h = Some h' \<and>
           (is_cyclic_root \<longleftrightarrow> (\<exists>x\<in>reach h root. Some root \<in> set (fields_of h x)))"
proof -
  let ?E = "edges h"
  have "red_ok {root} (h, Map.empty, [], False)"
    using assms unfolding red_ok_def reach_def by auto
  from mark_red_succeeds(1) [OF this, where root = root] obtain st' where
    r: "mark_red root root (h, Map.empty, [], False) = Some st'" by auto
  obtain h' cm co cyc where st': "st' = (h', cm, co, cyc)" by (cases st')
  from mark_red_ext(1) [OF r] have
    co: "lock_all co h = Some h'" "dom cm = set co" "\<forall>x\<in>set co. cm x = Some red"
    unfolding red_ext_def st' by auto
  from mark_red_post(1) [OF r] have
    root: "root \<in> dom cm"
    and cl: "\<And>x. x \<in> dom cm \<Longrightarrow> x \<in> ?E\<^sup>* `` {root} \<and> ?E `` {x} \<subseteq> dom cm"
    and cy: "cyc \<longleftrightarrow> (\<exists>x\<in>dom cm. (x, root) \<in> ?E)"
    unfolding red_post_def st' by auto
  have "reach h root \<subseteq> dom cm" using root cl by (intro reach_closed_subset) auto
  moreover have "dom cm \<subseteq> reach h root" using cl unfolding reach_def by auto
  ultimately have d: "dom cm = reach h root" by auto
  have 1: "\<forall>x. cm x = (if x \<in> reach h root then Some red else None)"
    using d co(2,3) by (auto simp: domIff)
  have 2: "distinct co" using lock_all_locked [OF co(1)] by simp
  have 3: "set co = reach h root" using d co(2) by simp
  have 4: "cyc \<longleftrightarrow> (\<exists>x\<in>reach h root. Some root \<in> set (fields_of h x))"
    unfolding cy d by (simp add: edges_def)
  show ?thesis using r 1 2 3 4 co(1) unfolding st' by blast
qed

section \<open>Claims about mark red\<close>

text \<open>
  C5.  From the empty colour map, the empty list and a cleared flag, mark red
  on a closure whose objects are allocated and unlocked returns; exactly the
  objects reachable from the root through non-null slots are coloured, all of
  them red; the list of collected objects holds each of them once; the final
  heap is the initial heap after one successful \<^verbatim>\<open>lock()\<close> per entry of that
  list, in its order; and the flag is set if and only if some object of the
  closure has a slot equal to the root.
\<close>

theorem mark_red_closure:
  assumes "\<forall>x\<in>reach h root. x \<in> fmdom' h \<and> \<not> locked h x"
  shows "\<exists>h' color_map collect_objects is_cyclic_root.
           mark_red root root (h, Map.empty, [], False)
             = Some (h', color_map, collect_objects, is_cyclic_root) \<and>
           (\<forall>x. color_map x = (if x \<in> reach h root then Some red else None)) \<and>
           distinct collect_objects \<and> set collect_objects = reach h root \<and>
           lock_all collect_objects h = Some h' \<and>
           (is_cyclic_root \<longleftrightarrow> (\<exists>x\<in>reach h root. Some root \<in> set (fields_of h x)))"
  using assms by (rule mark_red_result)

theorem mark_red_closure_witness:
  "\<exists>h' color_map collect_objects is_cyclic_root.
      mark_red 0 0 (two_cycle, Map.empty, [], False)
        = Some (h', color_map, collect_objects, is_cyclic_root) \<and>
      (\<forall>x. color_map x = (if x \<in> reach two_cycle 0 then Some red else None)) \<and>
      distinct collect_objects \<and> set collect_objects = reach two_cycle 0 \<and>
      lock_all collect_objects two_cycle = Some h' \<and>
      (is_cyclic_root \<longleftrightarrow> (\<exists>x\<in>reach two_cycle 0. Some 0 \<in> set (fields_of two_cycle x)))"
proof -
  have "\<forall>x\<in>{0, 1}. x \<in> fmdom' two_cycle \<and> \<not> locked two_cycle x"
    by (simp add: two_cycle_def locked_def example_object_def)
  with two_cycle_reach have hyp: "\<forall>x\<in>reach two_cycle 0. x \<in> fmdom' two_cycle \<and> \<not> locked two_cycle x"
    by blast
  from mark_red_closure [OF hyp] show ?thesis .
qed


section \<open>Promotion to shared mode\<close>

text \<open>
  \<^verbatim>\<open>HeapObject::to_mutex\<close>: when the flag is clear, set it and call
  \<^verbatim>\<open>to_mutex\<close> on every non-null slot in index order; when it is set, do
  nothing.
\<close>

function to_mutex :: "addr \<Rightarrow> heap \<Rightarrow> heap option"
  and to_mutex_fields :: "addr option list \<Rightarrow> heap \<Rightarrow> heap option"
where
  "to_mutex this h =
     (case fmlookup h this of
        None \<Rightarrow> None
      | Some ob \<Rightarrow>
          if \<not> is_mutex ob
          then to_mutex_fields (obj_fields ob) (fmupd this (ob\<lparr>is_mutex := True\<rparr>) h)
          else Some h)"
| "to_mutex_fields [] h = Some h"
| "to_mutex_fields (None # fs) h = to_mutex_fields fs h"
| "to_mutex_fields (Some field_object # fs) h =
     (case to_mutex field_object h of
        None \<Rightarrow> None
      | Some h' \<Rightarrow> to_mutex_fields fs h')"
  by pat_completeness auto

definition shared :: "heap \<Rightarrow> addr \<Rightarrow> bool" where
  "shared h a = (case fmlookup h a of None \<Rightarrow> False | Some ob \<Rightarrow> is_mutex ob)"

definition unshared :: "heap \<Rightarrow> addr set" where
  "unshared h = {a \<in> fmdom' h. \<not> shared h a}"

lemma finite_unshared: "finite (unshared h)"
  by (simp add: unshared_def)

lemma unshared_step:
  assumes "fmlookup h this = Some ob" "\<not> is_mutex ob"
  shows "unshared (fmupd this (ob\<lparr>is_mutex := True\<rparr>) h) \<subset> unshared h"
proof -
  have "this \<in> unshared h" using assms by (simp add: unshared_def shared_def fmdom'I)
  moreover have "this \<notin> unshared (fmupd this (ob\<lparr>is_mutex := True\<rparr>) h)"
    by (simp add: unshared_def shared_def)
  moreover have "unshared (fmupd this (ob\<lparr>is_mutex := True\<rparr>) h) \<subseteq> unshared h"
    using assms by (auto simp: unshared_def shared_def fmdom'I split: if_splits)
  ultimately show ?thesis by blast
qed

lemma to_mutex_unshared_dom:
  "to_mutex_to_mutex_fields_dom (Inl (this, h)) \<Longrightarrow>
     to_mutex this h = Some h' \<Longrightarrow> unshared h' \<subseteq> unshared h"
  "to_mutex_to_mutex_fields_dom (Inr (fs, h)) \<Longrightarrow>
     to_mutex_fields fs h = Some h' \<Longrightarrow> unshared h' \<subseteq> unshared h"
proof (induction this h and fs h arbitrary: h' and h' rule: to_mutex_to_mutex_fields.pinduct)
  case (1 this h)
  from 1(1,3) obtain ob where ob: "fmlookup h this = Some ob"
    by (auto simp: to_mutex.psimps split: option.splits)
  show ?case
  proof (cases "is_mutex ob")
    case True
    with 1(1,3) ob show ?thesis by (simp add: to_mutex.psimps)
  next
    case False
    with 1(1,3) ob have
      "to_mutex_fields (obj_fields ob) (fmupd this (ob\<lparr>is_mutex := True\<rparr>) h) = Some h'"
      by (simp add: to_mutex.psimps)
    from 1(2) [OF ob False this] unshared_step [OF ob False] show ?thesis by auto
  qed
next
  case (2 h)
  then show ?case by (simp add: to_mutex_fields.psimps)
next
  case (3 fs h)
  then show ?case by (simp add: to_mutex_fields.psimps)
next
  case (4 f fs h)
  from 4(1,4) obtain h1 where a: "to_mutex f h = Some h1" and b: "to_mutex_fields fs h1 = Some h'"
    by (auto simp: to_mutex_fields.psimps split: option.splits)
  from 4(2) [OF a] 4(3) [OF a b] show ?case by auto
qed

termination to_mutex
proof (relation "inv_image (finite_psubset <*lex*> less_than)
    (\<lambda>x. case x of Inl (this, h) \<Rightarrow> (unshared h, 0)
                 | Inr (fs, h) \<Rightarrow> (unshared h, Suc (length fs)))", goal_cases)
  case 1
  show ?case by (intro wf_inv_image wf_lex_prod wf_finite_psubset wf_less_than)
next
  case (2 this h ob)
  then show ?case
    using unshared_step [of h this ob] by (simp add: finite_psubset_def finite_unshared)
next
  case 3
  then show ?case by simp
next
  case 4
  then show ?case by simp
next
  case (5 f fs h h1)
  from to_mutex_unshared_dom(1) [OF 5(2) 5(1)]
  show ?case by (auto simp: finite_psubset_def finite_unshared)
qed

declare to_mutex.simps [simp del]

text \<open>
  What a promotion leaves behind: objects differ from before in the flag
  only, no flag is cleared, and every object whose flag was newly set has all
  its successors flagged.
\<close>

definition mx_ext :: "heap \<Rightarrow> heap \<Rightarrow> bool" where
  "mx_ext h h' \<longleftrightarrow>
     (\<forall>x. map_option (\<lambda>ob. ob\<lparr>is_mutex := True\<rparr>) (fmlookup h' x)
          = map_option (\<lambda>ob. ob\<lparr>is_mutex := True\<rparr>) (fmlookup h x)) \<and>
     (\<forall>x. shared h x \<longrightarrow> shared h' x) \<and>
     (\<forall>x. shared h' x \<and> \<not> shared h x \<longrightarrow> (\<forall>y. (x, y) \<in> edges h \<longrightarrow> shared h' y))"

lemma mx_ext_fields:
  assumes "mx_ext h h'"
  shows "fields_of h' x = fields_of h x"
proof -
  from assms have "map_option (\<lambda>ob. ob\<lparr>is_mutex := True\<rparr>) (fmlookup h' x)
          = map_option (\<lambda>ob. ob\<lparr>is_mutex := True\<rparr>) (fmlookup h x)"
    unfolding mx_ext_def by blast
  then show ?thesis
    unfolding fields_of_def
    by (cases "fmlookup h' x"; cases "fmlookup h x")
      (auto dest: arg_cong [where f = obj_fields])
qed

lemma mx_ext_dom:
  assumes "mx_ext h h'"
  shows "fmdom' h' = fmdom' h"
proof -
  have "(fmlookup h' x = None) = (fmlookup h x = None)" for x
  proof -
    from assms have "map_option (\<lambda>ob. ob\<lparr>is_mutex := True\<rparr>) (fmlookup h' x)
          = map_option (\<lambda>ob. ob\<lparr>is_mutex := True\<rparr>) (fmlookup h x)"
      unfolding mx_ext_def by blast
    then show ?thesis by (cases "fmlookup h' x"; cases "fmlookup h x") auto
  qed
  then show ?thesis by (auto simp: fmdom'_alt_def fmlookup_dom_iff) (metis option.exhaust)+
qed

lemma mx_ext_refl: "mx_ext h h"
  by (simp add: mx_ext_def)

lemma mx_ext_trans:
  assumes a: "mx_ext h h1" and b: "mx_ext h1 h2"
  shows "mx_ext h h2"
proof -
  have e: "edges h1 = edges h" by (rule edges_cong) (rule mx_ext_fields [OF a])
  have 1: "map_option (\<lambda>ob. ob\<lparr>is_mutex := True\<rparr>) (fmlookup h2 x)
          = map_option (\<lambda>ob. ob\<lparr>is_mutex := True\<rparr>) (fmlookup h x)" for x
    using a b unfolding mx_ext_def by simp
  have 2: "shared h x \<Longrightarrow> shared h2 x" for x
    using a b unfolding mx_ext_def by blast
  have 3: "shared h2 y" if "shared h2 x" "\<not> shared h x" "(x, y) \<in> edges h" for x y
  proof (cases "shared h1 x")
    case True
    with a that have "shared h1 y" unfolding mx_ext_def by blast
    with b show ?thesis unfolding mx_ext_def by blast
  next
    case False
    with b that e show ?thesis unfolding mx_ext_def by blast
  qed
  show ?thesis unfolding mx_ext_def using 1 2 3 by blast
qed

lemma to_mutex_ext:
  "to_mutex this h = Some h' \<Longrightarrow> mx_ext h h' \<and> shared h' this"
  "to_mutex_fields fs h = Some h' \<Longrightarrow> mx_ext h h' \<and> (\<forall>f. Some f \<in> set fs \<longrightarrow> shared h' f)"
proof (induction this h and fs h arbitrary: h' and h' rule: to_mutex_to_mutex_fields.induct)
  case (1 this h)
  from 1(2) obtain ob where ob: "fmlookup h this = Some ob"
    by (auto simp: to_mutex.simps split: option.splits)
  show ?case
  proof (cases "is_mutex ob")
    case True
    with 1(2) ob show ?thesis by (simp add: to_mutex.simps mx_ext_refl shared_def)
  next
    case False
    let ?h0 = "fmupd this (ob\<lparr>is_mutex := True\<rparr>) h"
    from False 1(2) ob have r: "to_mutex_fields (obj_fields ob) ?h0 = Some h'"
      by (simp add: to_mutex.simps)
    from 1(1) [OF ob False r] have ext: "mx_ext ?h0 h'"
      and fs: "\<And>f. Some f \<in> set (obj_fields ob) \<Longrightarrow> shared h' f" by auto
    have f0: "fields_of ?h0 x = fields_of h x" for x
      using ob by (cases "x = this") (simp_all add: fields_of_def)
    have e0: "edges ?h0 = edges h" by (rule edges_cong) (rule f0)
    have s0: "shared ?h0 x \<longleftrightarrow> x = this \<or> shared h x" for x
      using ob False by (simp add: shared_def)
    have 1: "map_option (\<lambda>ob. ob\<lparr>is_mutex := True\<rparr>) (fmlookup h' x)
          = map_option (\<lambda>ob. ob\<lparr>is_mutex := True\<rparr>) (fmlookup h x)" for x
    proof -
      from ext have "map_option (\<lambda>ob. ob\<lparr>is_mutex := True\<rparr>) (fmlookup h' x)
          = map_option (\<lambda>ob. ob\<lparr>is_mutex := True\<rparr>) (fmlookup ?h0 x)"
        unfolding mx_ext_def by blast
      with ob show ?thesis by (cases "x = this") simp_all
    qed
    have 2: "shared h x \<Longrightarrow> shared h' x" for x
      using ext s0 unfolding mx_ext_def by blast
    have this': "shared h' this" using ext s0 unfolding mx_ext_def by blast
    have 3: "shared h' y" if "shared h' x" "\<not> shared h x" "(x, y) \<in> edges h" for x y
    proof (cases "x = this")
      case True
      with that(3) ob have "Some y \<in> set (obj_fields ob)" by (simp add: edges_def fields_of_def)
      then show ?thesis by (rule fs)
    next
      case False
      with that s0 have "\<not> shared ?h0 x" by simp
      with ext that e0 show ?thesis unfolding mx_ext_def by blast
    qed
    show ?thesis unfolding mx_ext_def using 1 2 3 this' by blast
  qed
next
  case (2 h)
  then show ?case by (simp add: mx_ext_refl)
next
  case (3 fs h)
  then show ?case by simp
next
  case (4 f fs h)
  from 4(3) obtain h1 where a: "to_mutex f h = Some h1" and b: "to_mutex_fields fs h1 = Some h'"
    by (auto split: option.splits)
  from 4(1) [OF a] have e1: "mx_ext h h1" and f: "shared h1 f" by auto
  from 4(2) [OF a b] have e2: "mx_ext h1 h'" and fs: "\<And>g. Some g \<in> set fs \<Longrightarrow> shared h' g" by auto
  from e2 f have "shared h' f" unfolding mx_ext_def by blast
  with fs mx_ext_trans [OF e1 e2] show ?case by auto
qed

lemma to_mutex_succeeds:
  "(edges h)\<^sup>* `` {this} \<subseteq> fmdom' h \<Longrightarrow> to_mutex this h \<noteq> None"
  "(edges h)\<^sup>* `` {f. Some f \<in> set fs} \<subseteq> fmdom' h \<Longrightarrow> to_mutex_fields fs h \<noteq> None"
proof (induction this h and fs h rule: to_mutex_to_mutex_fields.induct)
  case (1 this h)
  then have "this \<in> fmdom' h" by auto
  then obtain ob where ob: "fmlookup h this = Some ob"
    by (auto simp: fmdom'_alt_def fmlookup_dom_iff)
  show ?case
  proof (cases "is_mutex ob")
    case True
    with ob show ?thesis by (simp add: to_mutex.simps)
  next
    case False
    let ?h0 = "fmupd this (ob\<lparr>is_mutex := True\<rparr>) h"
    have f0: "fields_of ?h0 x = fields_of h x" for x
      using ob by (cases "x = this") (simp_all add: fields_of_def)
    have e0: "edges ?h0 = edges h" by (rule edges_cong) (rule f0)
    have "(edges h)\<^sup>* `` {f. Some f \<in> set (obj_fields ob)} \<subseteq> (edges h)\<^sup>* `` {this}"
    proof
      fix x assume "x \<in> (edges h)\<^sup>* `` {f. Some f \<in> set (obj_fields ob)}"
      then obtain f where "Some f \<in> set (obj_fields ob)" "(f, x) \<in> (edges h)\<^sup>*" by auto
      with ob have "(this, f) \<in> edges h" "(f, x) \<in> (edges h)\<^sup>*"
        by (auto simp: edges_def fields_of_def)
      then have "(this, x) \<in> (edges h)\<^sup>*" by (rule converse_rtrancl_into_rtrancl)
      then show "x \<in> (edges h)\<^sup>* `` {this}" by auto
    qed
    with 1(2) have "(edges ?h0)\<^sup>* `` {f. Some f \<in> set (obj_fields ob)} \<subseteq> fmdom' ?h0"
      unfolding e0 by auto
    from 1(1) [OF ob False this] ob False show ?thesis by (simp add: to_mutex.simps)
  qed
next
  case (2 h)
  then show ?case by simp
next
  case (3 fs h)
  have "{f. Some f \<in> set (None # fs)} = {f. Some f \<in> set fs}" by auto
  with 3 show ?case by simp
next
  case (4 f fs h)
  have "(edges h)\<^sup>* `` {f} \<subseteq> (edges h)\<^sup>* `` {g. Some g \<in> set (Some f # fs)}" by auto
  with 4(3) have "(edges h)\<^sup>* `` {f} \<subseteq> fmdom' h" by blast
  from 4(1) [OF this] obtain h1 where a: "to_mutex f h = Some h1" by auto
  from to_mutex_ext(1) [OF a] have ext: "mx_ext h h1" by simp
  have e: "edges h1 = edges h" by (rule edges_cong) (rule mx_ext_fields [OF ext])
  have "(edges h)\<^sup>* `` {g. Some g \<in> set fs} \<subseteq> (edges h)\<^sup>* `` {g. Some g \<in> set (Some f # fs)}"
    by auto
  with 4(3) have "(edges h1)\<^sup>* `` {g. Some g \<in> set fs} \<subseteq> fmdom' h1"
    unfolding e mx_ext_dom [OF ext] by blast
  from 4(2) [OF a this] a show ?case by simp
qed


text \<open>A tree built locally (no object shared) and a shared parent with a local child.\<close>

definition local_tree :: heap where
  "local_tree =
     fmupd 0 (example_object 1 [Some 1, Some 2])
       (fmupd 1 (example_object 1 []) (fmupd 2 (example_object 1 []) fmempty))"

definition shared_parent :: heap where
  "shared_parent =
     fmupd 0 ((example_object 1 [Some 1])\<lparr>is_mutex := True\<rparr>)
       (fmupd 1 (example_object 1 []) fmempty)"

lemma local_tree_reach: "reach local_tree 0 \<subseteq> {0, 1, 2}"
  by (rule reach_closed_subset)
    (auto simp: edges_def fields_of_def local_tree_def example_object_def split: if_splits)

section \<open>Claims about the promotion\<close>

text \<open>
  C8, as stated: after \<^verbatim>\<open>to_mutex\<close> on any object of any graph, every object
  reachable from it is shared.  It fails when the object is shared already and
  one of its slots holds an object that is not: the call returns at once.
\<close>

theorem to_mutex_shared_parent_counterexample:
  "to_mutex 0 shared_parent = Some shared_parent \<and>
   1 \<in> reach shared_parent 0 \<and> \<not> shared shared_parent 1"
proof -
  have "(0, 1) \<in> edges shared_parent"
    by (simp add: edges_def fields_of_def shared_parent_def example_object_def)
  then have "1 \<in> reach shared_parent 0" unfolding reach_def by auto
  moreover have "to_mutex 0 shared_parent = Some shared_parent"
    by (simp add: to_mutex.simps shared_parent_def example_object_def)
  moreover have "\<not> shared shared_parent 1"
    by (simp add: shared_def shared_parent_def example_object_def)
  ultimately show ?thesis by simp
qed

text \<open>
  C8, amended: when the objects reachable from \<open>obj\<close> are allocated and every
  one of them that is shared already has only shared objects in its slots,
  \<^verbatim>\<open>to_mutex\<close> returns and every object reachable from \<open>obj\<close> is shared
  afterwards; the slots, and so the closure, are as before.
\<close>

theorem to_mutex_shares_closure:
  assumes "\<forall>x\<in>reach h obj. x \<in> fmdom' h \<and>
             (shared h x \<longrightarrow> (\<forall>y. (x, y) \<in> edges h \<longrightarrow> shared h y))"
  shows "\<exists>h'. to_mutex obj h = Some h' \<and> (\<forall>x\<in>reach h obj. shared h' x) \<and>
              reach h' obj = reach h obj"
proof -
  have "(edges h)\<^sup>* `` {obj} \<subseteq> fmdom' h" using assms unfolding reach_def by auto
  from to_mutex_succeeds(1) [OF this] obtain h' where r: "to_mutex obj h = Some h'" by auto
  from to_mutex_ext(1) [OF r] have ext: "mx_ext h h'" and o: "shared h' obj" by auto
  have cl: "edges h `` {x} \<subseteq> reach h obj \<inter> {y. shared h' y}"
    if "x \<in> reach h obj \<inter> {y. shared h' y}" for x
  proof
    fix y assume "y \<in> edges h `` {x}"
    then have xy: "(x, y) \<in> edges h" by simp
    from that have x: "(obj, x) \<in> (edges h)\<^sup>*" "shared h' x" by (auto simp: reach_def)
    from x(1) xy have "(obj, y) \<in> (edges h)\<^sup>*" by (rule rtrancl_into_rtrancl)
    moreover have "shared h' y"
    proof (cases "shared h x")
      case True
      with assms that xy have "shared h y" by blast
      with ext show ?thesis unfolding mx_ext_def by blast
    next
      case False
      with ext x(2) xy show ?thesis unfolding mx_ext_def by blast
    qed
    ultimately show "y \<in> reach h obj \<inter> {y. shared h' y}" by (simp add: reach_def)
  qed
  have "obj \<in> reach h obj \<inter> {y. shared h' y}" using o by (simp add: reach_def)
  then have "reach h obj \<subseteq> reach h obj \<inter> {y. shared h' y}"
    using cl by (rule reach_closed_subset)
  then have "\<forall>x\<in>reach h obj. shared h' x" by auto
  moreover have "reach h' obj = reach h obj"
    by (rule reach_cong) (rule mx_ext_fields [OF ext])
  ultimately show ?thesis using r by blast
qed

theorem to_mutex_shares_closure_witness:
  "\<exists>h'. to_mutex 0 local_tree = Some h' \<and> (\<forall>x\<in>reach local_tree 0. shared h' x) \<and>
         reach h' 0 = reach local_tree 0"
proof -
  have "\<forall>x\<in>{0, 1, 2}. x \<in> fmdom' local_tree \<and> \<not> shared local_tree x"
    by (simp add: local_tree_def shared_def example_object_def)
  with local_tree_reach
  have "\<forall>x\<in>reach local_tree 0. x \<in> fmdom' local_tree \<and>
          (shared local_tree x \<longrightarrow> (\<forall>y. (x, y) \<in> edges local_tree \<longrightarrow> shared local_tree y))"
    by blast
  from to_mutex_shares_closure [OF this] show ?thesis .
qed

section \<open>The registry of suspected roots\<close>

text \<open>
  The global state: the objects, \<^verbatim>\<open>suspected_object_set\<close> (an
  \<^verbatim>\<open>unordered_set\<close>, kept as a list without duplicates whose order is the
  order of iteration) and the two global spin locks.
\<close>

record runtime =
  objects :: heap
  suspected_object_set :: "addr list"
  list_lock :: bool
  gc_lock :: bool

definition add_suspected_object :: "addr \<Rightarrow> runtime \<Rightarrow> runtime option" where
  "add_suspected_object object s =
     (if list_lock s then None
      else Some (s\<lparr>suspected_object_set := List.insert object (suspected_object_set s),
                   list_lock := False\<rparr>))"

definition try_add_suspected_object :: "addr \<Rightarrow> size_t \<Rightarrow> runtime \<Rightarrow> runtime option" where
  "try_add_suspected_object object previous_ref_count s =
     (if previous_ref_count = 1 then
        (case fmlookup (objects s) object of
           None \<Rightarrow> None
         | Some ob \<Rightarrow>
             if is_cyclic_type ob then
               (if \<not> buffered ob
                then add_suspected_object object
                       (s\<lparr>objects := fmupd object (ob\<lparr>buffered := True\<rparr>) (objects s)\<rparr>)
                else Some s)
             else Some s)
      else Some s)"

text \<open>One cyclic-typed object with three references, not buffered, and an empty registry.\<close>

definition lone_runtime :: runtime where
  "lone_runtime =
     \<lparr>objects = fmupd 0 (example_object 3 []) fmempty, suspected_object_set = [],
      list_lock = False, gc_lock = False\<rparr>"

section \<open>Claims about the enrollment hook\<close>

text \<open>
  C2, as stated: for every decrement of a cyclic-typed object whose count
  before the decrement is greater than 1, the hook enrolls the object.  The
  hook compares the count it is given with 1: for a count of 3 before the
  decrement it does nothing, whether it is given the count before (3) or the
  count after (2).
\<close>

theorem try_add_suspected_object_counterexample:
  "try_add_suspected_object 0 3 lone_runtime = Some lone_runtime \<and>
   try_add_suspected_object 0 (3 - 1) lone_runtime = Some lone_runtime \<and>
   suspected_object_set lone_runtime = [] \<and>
   map_option is_cyclic_type (fmlookup (objects lone_runtime) 0) = Some True \<and>
   map_option buffered (fmlookup (objects lone_runtime) 0) = Some False"
  by (simp add: try_add_suspected_object_def lone_runtime_def example_object_def)

text \<open>
  C2, amended: on a cyclic-typed object and with the registry lock free, the
  hook enrolls exactly when the count it is given is 1 and the object is not
  buffered yet: it then sets \<^verbatim>\<open>buffered\<close> and inserts the object into the
  registry; in every other case the state is unchanged.  A second call of the
  hook after an enrollment changes nothing, so the object is enrolled once.
\<close>

theorem try_add_suspected_object_enrolls:
  assumes "fmlookup (objects s) object = Some ob" "is_cyclic_type ob" "\<not> list_lock s"
  shows "try_add_suspected_object object previous_ref_count s =
           Some (if previous_ref_count = 1 \<and> \<not> buffered ob
                 then s\<lparr>objects := fmupd object (ob\<lparr>buffered := True\<rparr>) (objects s),
                        suspected_object_set := List.insert object (suspected_object_set s)\<rparr>
                 else s) \<and>
         (\<forall>s' c. try_add_suspected_object object 1 s = Some s' \<longrightarrow>
                  try_add_suspected_object object c s' = Some s') \<and>
         (\<forall>s'. try_add_suspected_object object previous_ref_count s = Some s' \<longrightarrow>
                distinct (suspected_object_set s) \<longrightarrow> distinct (suspected_object_set s'))"
proof (intro conjI allI impI)
  show 1: "try_add_suspected_object object previous_ref_count s =
           Some (if previous_ref_count = 1 \<and> \<not> buffered ob
                 then s\<lparr>objects := fmupd object (ob\<lparr>buffered := True\<rparr>) (objects s),
                        suspected_object_set := List.insert object (suspected_object_set s)\<rparr>
                 else s)"
    using assms by (simp add: try_add_suspected_object_def add_suspected_object_def)
  show "try_add_suspected_object object c s' = Some s'"
    if "try_add_suspected_object object 1 s = Some s'" for s' c
    using that assms
    by (cases "buffered ob")
      (auto simp: try_add_suspected_object_def add_suspected_object_def)
  show "distinct (suspected_object_set s')"
    if "try_add_suspected_object object previous_ref_count s = Some s'"
      "distinct (suspected_object_set s)" for s'
    using that 1 by (auto split: if_splits)
qed

theorem try_add_suspected_object_enrolls_witness:
  "try_add_suspected_object 0 1 lone_runtime =
     Some (lone_runtime\<lparr>objects := fmupd 0 ((example_object 3 [])\<lparr>buffered := True\<rparr>)
                                      (objects lone_runtime),
                         suspected_object_set := [0]\<rparr>)"
proof -
  have "fmlookup (objects lone_runtime) 0 = Some (example_object 3 [])"
    "is_cyclic_type (example_object 3 [])" "\<not> list_lock lone_runtime"
    "\<not> buffered (example_object 3 [])" "suspected_object_set lone_runtime = []"
    by (simp_all add: lone_runtime_def example_object_def)
  with try_add_suspected_object_enrolls [of lone_runtime 0 "example_object 3 []" 1]
  show ?thesis by simp
qed


section \<open>Deferred release\<close>

text \<open>
  The steps of \<^verbatim>\<open>drop_object_for_cyclic_type\<close> on one object: the atomic
  \<^verbatim>\<open>fetch_sub\<close> on a count (returning the count before), the read and the
  write of slot \<open>i\<close>, and the store of \<^verbatim>\<open>ready_to_release_with_gc\<close>.  A slot
  index at or beyond the slot array is undefined behaviour, \<open>None\<close>.
\<close>

definition fetch_sub :: "addr \<Rightarrow> heap \<Rightarrow> (size_t \<times> heap) option" where
  "fetch_sub a h =
     (case fmlookup h a of
        None \<Rightarrow> None
      | Some ob \<Rightarrow>
          Some (reference_count ob, fmupd a (ob\<lparr>reference_count := reference_count ob - 1\<rparr>) h))"

definition load_field :: "addr \<Rightarrow> nat \<Rightarrow> heap \<Rightarrow> addr option option" where
  "load_field a i h =
     (case fmlookup h a of
        None \<Rightarrow> None
      | Some ob \<Rightarrow> if i < length (obj_fields ob) then Some (obj_fields ob ! i) else None)"

definition store_field :: "addr \<Rightarrow> nat \<Rightarrow> addr option \<Rightarrow> heap \<Rightarrow> heap option" where
  "store_field a i v h =
     (case fmlookup h a of
        None \<Rightarrow> None
      | Some ob \<Rightarrow>
          if i < length (obj_fields ob)
          then Some (fmupd a (ob\<lparr>obj_fields := (obj_fields ob)[i := v]\<rparr>) h)
          else None)"

definition store_ready :: "addr \<Rightarrow> heap \<Rightarrow> heap option" where
  "store_ready a h =
     (case fmlookup h a of
        None \<Rightarrow> None
      | Some ob \<Rightarrow> Some (fmupd a (ob\<lparr>ready_to_release_with_gc := True\<rparr>) h))"

definition cyclic_and_buffered :: "heap \<Rightarrow> addr \<Rightarrow> bool" where
  "cyclic_and_buffered h a =
     (case fmlookup h a of None \<Rightarrow> False | Some ob \<Rightarrow> is_cyclic_type ob \<and> buffered ob)"

definition ready :: "heap \<Rightarrow> addr \<Rightarrow> bool" where
  "ready h a = (case fmlookup h a of None \<Rightarrow> False | Some ob \<Rightarrow> ready_to_release_with_gc ob)"

text \<open>
  The events a run leaves in its trace, in program order: a lock taken, a lock
  released, a count decremented, an object's storage freed, and the flag
  \<^verbatim>\<open>ready_to_release_with_gc\<close> of an object loaded.
\<close>

datatype event = Acquire addr | Release addr | FetchSub addr | Free addr | LoadReady addr

type_synonym drop_state = "heap \<times> event list"

text \<open>
  \<^verbatim>\<open>drop_object_for_cyclic_type(object)\<close>; \<open>drop_fields object i n\<close> is its
  \<^verbatim>\<open>for\<close> loop at index \<open>i\<close> with \<^verbatim>\<open>field_length\<close> \<open>n\<close>, read once before the
  loop.  Each slot is read when its iteration starts.
\<close>

function drop_object_for_cyclic_type :: "addr \<Rightarrow> drop_state \<Rightarrow> drop_state option"
  and drop_fields :: "addr \<Rightarrow> nat \<Rightarrow> nat \<Rightarrow> drop_state \<Rightarrow> drop_state option"
where
  "drop_object_for_cyclic_type object (h, tr) =
     (case lock object h of
        None \<Rightarrow> None
      | Some h1 \<Rightarrow>
          (case drop_fields object 0 (length (fields_of h1 object)) (h1, tr @ [Acquire object]) of
             None \<Rightarrow> None
           | Some (h2, tr2) \<Rightarrow>
               (case unlock object h2 of
                  None \<Rightarrow> None
                | Some h3 \<Rightarrow>
                    (case store_ready object h3 of
                       None \<Rightarrow> None
                     | Some h4 \<Rightarrow> Some (h4, tr2 @ [Release object])))))"
| "drop_fields object i n (h, tr) =
     (if i < n then
        (case load_field object i h of
           None \<Rightarrow> None
         | Some None \<Rightarrow> drop_fields object (Suc i) n (h, tr)
         | Some (Some field_object) \<Rightarrow>
             (case fetch_sub field_object h of
                None \<Rightarrow> None
              | Some (previous_ref_count, h1) \<Rightarrow>
                  if previous_ref_count = 1 then
                    (case (if cyclic_and_buffered h1 field_object
                           then store_field object i None h1 else Some h1) of
                       None \<Rightarrow> None
                     | Some h2 \<Rightarrow>
                         (case drop_object_for_cyclic_type field_object
                                 (h2, tr @ [FetchSub field_object]) of
                            None \<Rightarrow> None
                          | Some st' \<Rightarrow> drop_fields object (Suc i) n st'))
                  else
                    (case store_field object i None h1 of
                       None \<Rightarrow> None
                     | Some h2 \<Rightarrow>
                         drop_fields object (Suc i) n (h2, tr @ [FetchSub field_object]))))
      else Some (h, tr))"
  by pat_completeness auto

text \<open>The objects whose lock is free: the measure of the deferred release.\<close>

definition unlocked :: "heap \<Rightarrow> addr set" where
  "unlocked h = {a \<in> fmdom' h. \<not> locked h a}"

lemma finite_unlocked: "finite (unlocked h)"
  by (simp add: unlocked_def)

lemma lock_unlocked: "lock a h = Some h' \<Longrightarrow> unlocked h' = unlocked h - {a} \<and> a \<in> unlocked h"
  using lock_dom [of a h h'] lock_locked [of a h h']
  by (auto simp: unlocked_def)

lemma unlock_locked: "unlock a h = Some h' \<Longrightarrow> (locked h' x \<longleftrightarrow> x \<noteq> a \<and> locked h x)"
  by (auto simp: unlock_def locked_def split: option.splits if_splits)

lemma unlock_unlocked: "unlock a h = Some h' \<Longrightarrow> unlocked h' = insert a (unlocked h)"
  using unlock_dom [of a h h'] unlock_locked [of a h h']
  by (auto simp: unlocked_def)

lemma fetch_sub_unlocked: "fetch_sub a h = Some (c, h') \<Longrightarrow> unlocked h' = unlocked h"
  by (auto simp: fetch_sub_def unlocked_def locked_def fmdom'I split: option.splits if_splits)

lemma store_field_unlocked: "store_field a i v h = Some h' \<Longrightarrow> unlocked h' = unlocked h"
  by (auto simp: store_field_def unlocked_def locked_def fmdom'I split: option.splits if_splits)

lemma store_ready_unlocked: "store_ready a h = Some h' \<Longrightarrow> unlocked h' = unlocked h"
  by (auto simp: store_ready_def unlocked_def locked_def fmdom'I split: option.splits if_splits)

lemma drop_unlocked_dom:
  "drop_object_for_cyclic_type_drop_fields_dom (Inl (object, st)) \<Longrightarrow>
     drop_object_for_cyclic_type object st = Some st' \<Longrightarrow> unlocked (fst st') = unlocked (fst st)"
  "drop_object_for_cyclic_type_drop_fields_dom (Inr (object, i, n, st)) \<Longrightarrow>
     drop_fields object i n st = Some st' \<Longrightarrow> unlocked (fst st') = unlocked (fst st)"
proof (induction object st and object i n st arbitrary: st' and st'
    rule: drop_object_for_cyclic_type_drop_fields.pinduct)
  case (1 object h tr)
  from 1(1,3) obtain h1 h2 tr2 h3 h4 where
    l: "lock object h = Some h1"
    and f: "drop_fields object 0 (length (fields_of h1 object)) (h1, tr @ [Acquire object]) = Some (h2, tr2)"
    and u: "unlock object h2 = Some h3"
    and r: "store_ready object h3 = Some h4"
    and s: "st' = (h4, tr2 @ [Release object])"
    by (auto simp: drop_object_for_cyclic_type.psimps split: option.splits prod.splits)
  from 1(2) [OF l f] have "unlocked h2 = unlocked h1" by simp
  with lock_unlocked [OF l] unlock_unlocked [OF u] store_ready_unlocked [OF r] s
  show ?case by auto
next
  case (2 object i n h tr)
  note dom = 2(1) and eq = 2(6)
  note psimp = drop_fields.psimps [OF dom]
  show ?case
  proof (cases "i < n")
    case False
    with eq show ?thesis by (simp add: psimp)
  next
    case True
    from True eq obtain v where ld: "load_field object i h = Some v"
      by (auto simp: psimp split: option.splits)
    show ?thesis
    proof (cases v)
      case None
      with True ld eq have "drop_fields object (Suc i) n (h, tr) = Some st'"
        by (simp add: psimp)
      with 2(2) True ld None show ?thesis by simp
    next
      case (Some fo)
      from True ld Some eq obtain c h1 where fs: "fetch_sub fo h = Some (c, h1)"
        by (auto simp: psimp split: option.splits)
      note u1 = fetch_sub_unlocked [OF fs]
      show ?thesis
      proof (cases "c = 1")
        case c: True
        from True ld Some fs c eq obtain h2 st1 where
          w: "(if cyclic_and_buffered h1 fo then store_field object i None h1 else Some h1) = Some h2"
          and d: "drop_object_for_cyclic_type fo (h2, tr @ [FetchSub fo]) = Some st1"
          and rest: "drop_fields object (Suc i) n st1 = Some st'"
          by (auto simp: psimp split: option.splits)
        from w have u2: "unlocked h2 = unlocked h1"
          by (auto split: if_splits dest: store_field_unlocked)
        from 2(3) True ld Some fs c w d
        have "unlocked (fst st1) = unlocked h2" by simp
        moreover from 2(4) True ld Some fs c w d rest
        have "unlocked (fst st') = unlocked (fst st1)" by simp
        ultimately show ?thesis using u1 u2 by simp
      next
        case c: False
        from True ld Some fs c eq obtain h2 where
          w: "store_field object i None h1 = Some h2"
          and rest: "drop_fields object (Suc i) n (h2, tr @ [FetchSub fo]) = Some st'"
          by (auto simp: psimp split: option.splits)
        from 2(5) True ld Some fs c w rest
        have "unlocked (fst st') = unlocked h2" by simp
        with u1 store_field_unlocked [OF w] show ?thesis by simp
      qed
    qed
  qed
qed

lemma drop_step_unlocked:
  "fetch_sub fo h = Some (c, h1) \<Longrightarrow>
   (if b then store_field object i None h1 else Some h1) = Some h2 \<Longrightarrow> unlocked h2 = unlocked h"
  by (auto split: if_splits dest: store_field_unlocked fetch_sub_unlocked)

termination drop_object_for_cyclic_type
proof (relation "inv_image (finite_psubset <*lex*> less_than)
    (\<lambda>x. case x of Inl (object, st) \<Rightarrow> (unlocked (fst st), 0)
                 | Inr (object, i, n, st) \<Rightarrow> (unlocked (fst st), Suc (n - i)))", goal_cases)
  case 1
  show ?case by (intro wf_inv_image wf_lex_prod wf_finite_psubset wf_less_than)
next
  case (2 object h tr h1)
  then show ?case
    using lock_unlocked [of object h h1] by (auto simp: finite_psubset_def finite_unlocked)
next
  case (3 object i n h tr v)
  then show ?case by simp
next
  case (4 object i n h tr v fo x c h1 h2)
  then have "unlocked h2 = unlocked h"
    using drop_step_unlocked [of fo h c h1 "cyclic_and_buffered h1 fo" object i h2] by simp
  then show ?case by simp
next
  case (5 object i n h tr v fo x c h1 h2 st1)
  then have "unlocked h2 = unlocked h"
    using drop_step_unlocked [of fo h c h1 "cyclic_and_buffered h1 fo" object i h2] by simp
  moreover from drop_unlocked_dom(1) [OF 5(9) 5(8)]
  have "unlocked (fst st1) = unlocked h2" by simp
  ultimately show ?case using 5(1) by simp
next
  case (6 object i n h tr v fo x c h1 h2)
  then have "unlocked h2 = unlocked h"
    using drop_step_unlocked [of fo h c h1 True object i h2] by simp
  then show ?case using 6(1) by simp
qed

declare drop_object_for_cyclic_type.simps [simp del]
declare drop_fields.simps [simp del]


section \<open>What the deferred release changes\<close>

text \<open>
  How an object after (part of) a deferred release relates to the object
  before: the flags other than \<^verbatim>\<open>ready_to_release_with_gc\<close> are the same,
  that flag is never cleared, and a slot is as before or null.  An object whose
  lock is held keeps its slots, unless it is the object whose loop is running
  (\<open>own\<close>).
\<close>

definition obj_ext :: "bool \<Rightarrow> HeapObject \<Rightarrow> HeapObject \<Rightarrow> bool" where
  "obj_ext own ob ob' \<longleftrightarrow>
     is_mutex ob' = is_mutex ob \<and> spin_lock_flag ob' = spin_lock_flag ob \<and>
     is_cyclic_type ob' = is_cyclic_type ob \<and> buffered ob' = buffered ob \<and>
     (ready_to_release_with_gc ob \<longrightarrow> ready_to_release_with_gc ob') \<and>
     length (obj_fields ob') = length (obj_fields ob) \<and>
     (\<forall>j<length (obj_fields ob). obj_fields ob' ! j = None \<or> obj_fields ob' ! j = obj_fields ob ! j) \<and>
     (spin_lock_flag ob \<and> \<not> own \<longrightarrow> obj_fields ob' = obj_fields ob)"

definition drop_ext :: "addr set \<Rightarrow> heap \<Rightarrow> heap \<Rightarrow> bool" where
  "drop_ext X h h' \<longleftrightarrow>
     (\<forall>a. case fmlookup h a of
            None \<Rightarrow> fmlookup h' a = None
          | Some ob \<Rightarrow> (\<exists>ob'. fmlookup h' a = Some ob' \<and> obj_ext (a \<in> X) ob ob'))"

lemma obj_ext_refl: "obj_ext own ob ob"
  by (simp add: obj_ext_def)

lemma obj_ext_trans:
  assumes "obj_ext own ob ob1" "obj_ext own ob1 ob2"
  shows "obj_ext own ob ob2"
proof -
  have "obj_fields ob2 ! j = None \<or> obj_fields ob2 ! j = obj_fields ob ! j"
    if "j < length (obj_fields ob)" for j
  proof -
    from assms that have "obj_fields ob1 ! j = None \<or> obj_fields ob1 ! j = obj_fields ob ! j"
      and "obj_fields ob2 ! j = None \<or> obj_fields ob2 ! j = obj_fields ob1 ! j"
      unfolding obj_ext_def by auto
    then show ?thesis by auto
  qed
  moreover have "obj_fields ob2 = obj_fields ob" if "spin_lock_flag ob" "\<not> own"
    using assms that unfolding obj_ext_def by auto
  ultimately show ?thesis using assms unfolding obj_ext_def by auto
qed

lemma obj_ext_own: "obj_ext False ob ob' \<Longrightarrow> obj_ext own ob ob'"
  by (auto simp: obj_ext_def)

lemma drop_extI:
  assumes "\<And>a. fmlookup h a = None \<Longrightarrow> fmlookup h' a = None"
    and "\<And>a ob. fmlookup h a = Some ob \<Longrightarrow> \<exists>ob'. fmlookup h' a = Some ob' \<and> obj_ext (a \<in> X) ob ob'"
  shows "drop_ext X h h'"
  unfolding drop_ext_def
proof
  fix a
  show "case fmlookup h a of None \<Rightarrow> fmlookup h' a = None
        | Some ob \<Rightarrow> \<exists>ob'. fmlookup h' a = Some ob' \<and> obj_ext (a \<in> X) ob ob'"
    using assms [of a] by (cases "fmlookup h a") simp_all
qed

lemma drop_ext_NoneD:
  assumes "drop_ext X h h'" "fmlookup h a = None"
  shows "fmlookup h' a = None"
proof -
  from assms(1) have "case fmlookup h a of None \<Rightarrow> fmlookup h' a = None
        | Some ob \<Rightarrow> \<exists>ob'. fmlookup h' a = Some ob' \<and> obj_ext (a \<in> X) ob ob'"
    unfolding drop_ext_def by (rule spec)
  with assms(2) show ?thesis by simp
qed

lemma drop_extD:
  assumes "drop_ext X h h'" "fmlookup h a = Some ob"
  obtains ob' where "fmlookup h' a = Some ob'" "obj_ext (a \<in> X) ob ob'"
proof -
  from assms(1) have "case fmlookup h a of None \<Rightarrow> fmlookup h' a = None
        | Some ob \<Rightarrow> \<exists>ob'. fmlookup h' a = Some ob' \<and> obj_ext (a \<in> X) ob ob'"
    unfolding drop_ext_def by (rule spec)
  with assms(2) that show ?thesis by auto
qed

lemma drop_ext_refl: "drop_ext X h h"
  by (rule drop_extI) (simp_all add: obj_ext_refl)

lemma drop_ext_trans:
  assumes "drop_ext X h h1" "drop_ext X h1 h2"
  shows "drop_ext X h h2"
proof (rule drop_extI)
  fix a assume "fmlookup h a = None"
  then show "fmlookup h2 a = None"
    using assms by (blast dest: drop_ext_NoneD)
next
  fix a ob assume "fmlookup h a = Some ob"
  with assms(1) obtain ob1 where 1: "fmlookup h1 a = Some ob1" "obj_ext (a \<in> X) ob ob1"
    by (rule drop_extD)
  with assms(2) obtain ob2 where 2: "fmlookup h2 a = Some ob2" "obj_ext (a \<in> X) ob1 ob2"
    by (blast elim: drop_extD)
  from obj_ext_trans [OF 1(2) 2(2)] 2(1)
  show "\<exists>ob'. fmlookup h2 a = Some ob' \<and> obj_ext (a \<in> X) ob ob'" by simp
qed

lemma drop_ext_mono:
  assumes "drop_ext {} h h'"
  shows "drop_ext X h h'"
proof (rule drop_extI)
  fix a assume "fmlookup h a = None"
  with assms show "fmlookup h' a = None" by (rule drop_ext_NoneD)
next
  fix a ob assume "fmlookup h a = Some ob"
  with assms obtain ob' where "fmlookup h' a = Some ob'" "obj_ext (a \<in> {}) ob ob'"
    by (rule drop_extD)
  then show "\<exists>ob'. fmlookup h' a = Some ob' \<and> obj_ext (a \<in> X) ob ob'"
    by (auto intro: obj_ext_own)
qed


lemma fetch_sub_ext:
  assumes "fetch_sub a h = Some (c, h')"
  shows "drop_ext X h h'"
proof -
  from assms obtain ob where ob: "fmlookup h a = Some ob"
    and h': "h' = fmupd a (ob\<lparr>reference_count := reference_count ob - 1\<rparr>) h"
    by (auto simp: fetch_sub_def split: option.splits)
  show ?thesis
  proof (rule drop_extI)
    fix x assume "fmlookup h x = None"
    with ob show "fmlookup h' x = None" unfolding h' by (cases "x = a") simp_all
  next
    fix x obx assume "fmlookup h x = Some obx"
    with ob show "\<exists>ob'. fmlookup h' x = Some ob' \<and> obj_ext (x \<in> X) obx ob'"
      unfolding h' by (cases "x = a") (simp_all add: obj_ext_def)
  qed
qed

lemma store_field_ext:
  assumes "store_field a i None h = Some h'"
  shows "drop_ext {a} h h'"
proof -
  from assms obtain ob where ob: "fmlookup h a = Some ob"
    and h': "h' = fmupd a (ob\<lparr>obj_fields := (obj_fields ob)[i := None]\<rparr>) h"
    and i: "i < length (obj_fields ob)"
    by (auto simp: store_field_def split: option.splits if_splits)
  show ?thesis
  proof (rule drop_extI)
    fix x assume "fmlookup h x = None"
    with ob show "fmlookup h' x = None" unfolding h' by (cases "x = a") simp_all
  next
    fix x obx assume "fmlookup h x = Some obx"
    with ob i show "\<exists>ob'. fmlookup h' x = Some ob' \<and> obj_ext (x \<in> {a}) obx ob'"
      unfolding h' by (cases "x = a") (auto simp: obj_ext_def nth_list_update)
  qed
qed


lemma drop_ext_props:
  assumes "drop_ext X h h'"
  shows "locked h' a = locked h a"
    and "cyclic_and_buffered h' a = cyclic_and_buffered h a"
    and "ready h a \<Longrightarrow> ready h' a"
    and "length (fields_of h' a) = length (fields_of h a)"
    and "locked h a \<Longrightarrow> a \<notin> X \<Longrightarrow> fields_of h' a = fields_of h a"
    and "j < length (fields_of h a) \<Longrightarrow>
           fields_of h' a ! j = None \<or> fields_of h' a ! j = fields_of h a ! j"
proof -
  show "locked h' a = locked h a"
  proof (cases "fmlookup h a")
    case None
    with assms have "fmlookup h' a = None" by (rule drop_ext_NoneD)
    with None show ?thesis by (simp add: locked_def)
  next
    case (Some ob)
    with assms obtain ob' where "fmlookup h' a = Some ob'" "obj_ext (a \<in> X) ob ob'"
      by (rule drop_extD)
    with Some show ?thesis by (simp add: locked_def obj_ext_def)
  qed
  show "cyclic_and_buffered h' a = cyclic_and_buffered h a"
  proof (cases "fmlookup h a")
    case None
    with assms have "fmlookup h' a = None" by (rule drop_ext_NoneD)
    with None show ?thesis by (simp add: cyclic_and_buffered_def)
  next
    case (Some ob)
    with assms obtain ob' where "fmlookup h' a = Some ob'" "obj_ext (a \<in> X) ob ob'"
      by (rule drop_extD)
    with Some show ?thesis by (simp add: cyclic_and_buffered_def obj_ext_def)
  qed
  show "ready h' a" if "ready h a"
  proof (cases "fmlookup h a")
    case None
    with that show ?thesis by (simp add: ready_def)
  next
    case (Some ob)
    with assms obtain ob' where "fmlookup h' a = Some ob'" "obj_ext (a \<in> X) ob ob'"
      by (rule drop_extD)
    with Some that show ?thesis by (simp add: ready_def obj_ext_def)
  qed
  show "length (fields_of h' a) = length (fields_of h a)"
  proof (cases "fmlookup h a")
    case None
    with assms have "fmlookup h' a = None" by (rule drop_ext_NoneD)
    with None show ?thesis by (simp add: fields_of_def)
  next
    case (Some ob)
    with assms obtain ob' where "fmlookup h' a = Some ob'" "obj_ext (a \<in> X) ob ob'"
      by (rule drop_extD)
    with Some show ?thesis by (simp add: fields_of_def obj_ext_def)
  qed
  show "fields_of h' a = fields_of h a" if "locked h a" "a \<notin> X"
  proof (cases "fmlookup h a")
    case None
    with that show ?thesis by (simp add: locked_def)
  next
    case (Some ob)
    with assms obtain ob' where "fmlookup h' a = Some ob'" "obj_ext (a \<in> X) ob ob'"
      by (rule drop_extD)
    with Some that show ?thesis by (simp add: fields_of_def locked_def obj_ext_def)
  qed
  show "fields_of h' a ! j = None \<or> fields_of h' a ! j = fields_of h a ! j"
    if "j < length (fields_of h a)"
  proof (cases "fmlookup h a")
    case None
    with that show ?thesis by (simp add: fields_of_def)
  next
    case (Some ob)
    with assms obtain ob' where "fmlookup h' a = Some ob'" "obj_ext (a \<in> X) ob ob'"
      by (rule drop_extD)
    with Some that show ?thesis by (simp add: fields_of_def obj_ext_def)
  qed
qed

lemma drop_frame:
  assumes l: "lock object h = Some h1" and e: "drop_ext {object} h1 h2"
    and u: "unlock object h2 = Some h3" and r: "store_ready object h3 = Some h4"
  shows "drop_ext {} h h4 \<and> ready h4 object \<and> \<not> locked h4 object"
proof -
  from l obtain ob where ob: "fmlookup h object = Some ob" "\<not> spin_lock_flag ob"
    and h1: "h1 = fmupd object (ob\<lparr>spin_lock_flag := True\<rparr>) h"
    by (auto simp: lock_def split: option.splits if_splits)
  from u obtain ob2 where ob2: "fmlookup h2 object = Some ob2"
    and h3: "h3 = fmupd object (ob2\<lparr>spin_lock_flag := False\<rparr>) h2"
    by (auto simp: unlock_def split: option.splits)
  from r h3 have h4: "h4 = fmupd object (ob2\<lparr>spin_lock_flag := False, ready_to_release_with_gc := True\<rparr>) h2"
    by (auto simp: store_ready_def)
  have "fmlookup h1 object = Some (ob\<lparr>spin_lock_flag := True\<rparr>)" by (simp add: h1)
  with e obtain ob2' where "fmlookup h2 object = Some ob2'"
    "obj_ext (object \<in> {object}) (ob\<lparr>spin_lock_flag := True\<rparr>) ob2'"
    by (rule drop_extD)
  with ob2 have x: "obj_ext True (ob\<lparr>spin_lock_flag := True\<rparr>) ob2" by simp
  have "drop_ext {} h h4"
  proof (rule drop_extI)
    fix a assume n: "fmlookup h a = None"
    with ob have "a \<noteq> object" by auto
    with n have "fmlookup h1 a = None" by (simp add: h1)
    with e have "fmlookup h2 a = None" by (rule drop_ext_NoneD)
    with \<open>a \<noteq> object\<close> show "fmlookup h4 a = None" by (simp add: h4)
  next
    fix a oba assume s: "fmlookup h a = Some oba"
    show "\<exists>ob'. fmlookup h4 a = Some ob' \<and> obj_ext (a \<in> {}) oba ob'"
    proof (cases "a = object")
      case True
      with s ob have "oba = ob" by simp
      with x ob(2) True show ?thesis by (auto simp: h4 obj_ext_def)
    next
      case False
      with s have "fmlookup h1 a = Some oba" by (simp add: h1)
      with e obtain ob' where "fmlookup h2 a = Some ob'" "obj_ext (a \<in> {object}) oba ob'"
        by (rule drop_extD)
      with False show ?thesis by (simp add: h4)
    qed
  qed
  moreover have "ready h4 object" by (simp add: h4 ready_def)
  moreover have "\<not> locked h4 object" by (simp add: h4 locked_def)
  ultimately show ?thesis by simp
qed

lemma drop_ext_result:
  "drop_object_for_cyclic_type object st = Some st' \<Longrightarrow>
     drop_ext {} (fst st) (fst st') \<and> ready (fst st') object \<and> \<not> locked (fst st') object"
  "drop_fields object i n st = Some st' \<Longrightarrow> drop_ext {object} (fst st) (fst st')"
proof (induction object st and object i n st arbitrary: st' and st'
    rule: drop_object_for_cyclic_type_drop_fields.induct)
  case (1 object h tr)
  from 1(2) obtain h1 h2 tr2 h3 h4 where
    l: "lock object h = Some h1"
    and f: "drop_fields object 0 (length (fields_of h1 object)) (h1, tr @ [Acquire object]) = Some (h2, tr2)"
    and u: "unlock object h2 = Some h3"
    and r: "store_ready object h3 = Some h4"
    and s: "st' = (h4, tr2 @ [Release object])"
    by (auto simp: drop_object_for_cyclic_type.simps split: option.splits prod.splits)
  from 1(1) [OF l f] have "drop_ext {object} h1 h2" by simp
  from drop_frame [OF l this u r] show ?case by (simp add: s)
next
  case (2 object i n h tr)
  note eq = 2(5)
  note simp = drop_fields.simps [of object i n h tr]
  show ?case
  proof (cases "i < n")
    case False
    with eq show ?thesis by (simp add: simp drop_ext_refl)
  next
    case True
    from True eq obtain v where ld: "load_field object i h = Some v"
      by (auto simp: simp split: option.splits)
    show ?thesis
    proof (cases v)
      case None
      with True ld eq have "drop_fields object (Suc i) n (h, tr) = Some st'"
        by (simp add: simp)
      with 2(1) True ld None show ?thesis by simp
    next
      case (Some fo)
      from True ld Some eq obtain c h1 where fs: "fetch_sub fo h = Some (c, h1)"
        by (auto simp: simp split: option.splits)
      note e1 = fetch_sub_ext [OF fs, of "{object}"]
      show ?thesis
      proof (cases "c = 1")
        case c: True
        from True ld Some fs c eq obtain h2 st1 where
          w: "(if cyclic_and_buffered h1 fo then store_field object i None h1 else Some h1) = Some h2"
          and d: "drop_object_for_cyclic_type fo (h2, tr @ [FetchSub fo]) = Some st1"
          and rest: "drop_fields object (Suc i) n st1 = Some st'"
          by (auto simp: simp split: option.splits)
        from w have e2: "drop_ext {object} h1 h2"
          by (auto split: if_splits intro: store_field_ext drop_ext_refl)
        from 2(2) True ld Some fs c w d
        have "drop_ext {} h2 (fst st1)" by simp
        then have e3: "drop_ext {object} h2 (fst st1)" by (rule drop_ext_mono)
        from 2(3) True ld Some fs c w d rest
        have e4: "drop_ext {object} (fst st1) (fst st')" by simp
        from e1 e2 e3 e4 show ?thesis by (auto intro: drop_ext_trans)
      next
        case c: False
        from True ld Some fs c eq obtain h2 where
          w: "store_field object i None h1 = Some h2"
          and rest: "drop_fields object (Suc i) n (h2, tr @ [FetchSub fo]) = Some st'"
          by (auto simp: simp split: option.splits)
        from 2(4) True ld Some fs c w rest
        have "drop_ext {object} h2 (fst st')" by simp
        with e1 store_field_ext [OF w] show ?thesis by (auto intro: drop_ext_trans)
      qed
    qed
  qed
qed


section \<open>The trace of a deferred release\<close>

text \<open>
  The locks held along a trace, as a stack: a lock taken is pushed, a lock
  released must be the one on top.  \<open>max_held k\<close> is the largest number of
  locks held at any moment of the trace when \<open>k\<close> are held at its start.
\<close>

fun lock_stack :: "event list \<Rightarrow> addr list \<Rightarrow> addr list option" where
  "lock_stack [] stk = Some stk"
| "lock_stack (Acquire a # es) stk = lock_stack es (a # stk)"
| "lock_stack (Release a # es) stk =
     (case stk of [] \<Rightarrow> None | b # stk' \<Rightarrow> if a = b then lock_stack es stk' else None)"
| "lock_stack (FetchSub a # es) stk = lock_stack es stk"
| "lock_stack (Free a # es) stk = lock_stack es stk"
| "lock_stack (LoadReady a # es) stk = lock_stack es stk"

fun max_held :: "nat \<Rightarrow> event list \<Rightarrow> nat" where
  "max_held k [] = k"
| "max_held k (Acquire a # es) = max k (max_held (Suc k) es)"
| "max_held k (Release a # es) = max k (max_held (k - 1) es)"
| "max_held k (FetchSub a # es) = max_held k es"
| "max_held k (Free a # es) = max_held k es"
| "max_held k (LoadReady a # es) = max_held k es"

definition ref_count :: "heap \<Rightarrow> addr \<Rightarrow> size_t" where
  "ref_count h a = (case fmlookup h a of None \<Rightarrow> 0 | Some ob \<Rightarrow> reference_count ob)"

lemma lock_stack_append:
  "lock_stack (xs @ ys) stk =
     (case lock_stack xs stk of None \<Rightarrow> None | Some stk' \<Rightarrow> lock_stack ys stk')"
  by (induction xs stk rule: lock_stack.induct) (auto split: list.splits)

text \<open>
  A stretch of trace between two heaps: its locks are taken and released in
  nested order and none is left held, every count has gone down by the number
  of its decrements, and nothing was freed.
\<close>

definition trace_ok :: "heap \<Rightarrow> heap \<Rightarrow> event list \<Rightarrow> bool" where
  "trace_ok h h' mid \<longleftrightarrow>
     (\<forall>stk. lock_stack mid stk = Some stk) \<and>
     (\<forall>a. ref_count h' a = ref_count h a - of_nat (count_list mid (FetchSub a))) \<and>
     (\<forall>a. Free a \<notin> set mid)"

lemma trace_ok_nil: "(\<And>a. ref_count h' a = ref_count h a) \<Longrightarrow> trace_ok h h' []"
  by (simp add: trace_ok_def)

lemma trace_ok_append:
  assumes "trace_ok h h1 m1" "trace_ok h1 h2 m2"
  shows "trace_ok h h2 (m1 @ m2)"
proof -
  have "lock_stack (m1 @ m2) stk = Some stk" for stk
    using assms by (simp add: trace_ok_def lock_stack_append)
  moreover have "ref_count h2 a = ref_count h a - of_nat (count_list (m1 @ m2) (FetchSub a))" for a
    using assms by (simp add: trace_ok_def)
  moreover have "Free a \<notin> set (m1 @ m2)" for a
    using assms by (simp add: trace_ok_def)
  ultimately show ?thesis unfolding trace_ok_def by blast
qed

lemma fetch_sub_ref_count:
  "fetch_sub fo h = Some (c, h1) \<Longrightarrow>
     c = ref_count h fo \<and> ref_count h1 a = (if a = fo then ref_count h a - 1 else ref_count h a)"
  by (auto simp: fetch_sub_def ref_count_def split: option.splits)

lemma trace_ok_fetch_sub:
  assumes "fetch_sub fo h = Some (c, h1)"
  shows "trace_ok h h1 [FetchSub fo]"
  unfolding trace_ok_def using fetch_sub_ref_count [OF assms] by simp

lemma store_field_ref_count: "store_field a i v h = Some h' \<Longrightarrow> ref_count h' x = ref_count h x"
  by (auto simp: store_field_def ref_count_def split: option.splits if_splits)

lemma lock_ref_count: "lock a h = Some h' \<Longrightarrow> ref_count h' x = ref_count h x"
  by (auto simp: lock_def ref_count_def split: option.splits if_splits)

lemma unlock_ref_count: "unlock a h = Some h' \<Longrightarrow> ref_count h' x = ref_count h x"
  by (auto simp: unlock_def ref_count_def split: option.splits if_splits)

lemma store_ready_ref_count: "store_ready a h = Some h' \<Longrightarrow> ref_count h' x = ref_count h x"
  by (auto simp: store_ready_def ref_count_def split: option.splits if_splits)

lemma trace_ok_wrap:
  assumes t: "trace_ok h1 h2 mid" and l: "lock object h = Some h1"
    and u: "unlock object h2 = Some h3" and r: "store_ready object h3 = Some h4"
  shows "trace_ok h h4 (Acquire object # mid @ [Release object])"
proof -
  have "lock_stack (Acquire object # mid @ [Release object]) stk = Some stk" for stk
    using t by (simp add: trace_ok_def lock_stack_append)
  moreover have "ref_count h4 a = ref_count h a
      - of_nat (count_list (Acquire object # mid @ [Release object]) (FetchSub a))" for a
    using t lock_ref_count [OF l] unlock_ref_count [OF u] store_ready_ref_count [OF r]
    by (simp add: trace_ok_def)
  moreover have "Free a \<notin> set (Acquire object # mid @ [Release object])" for a
    using t by (simp add: trace_ok_def)
  ultimately show ?thesis unfolding trace_ok_def by blast
qed

lemma drop_trace:
  "drop_object_for_cyclic_type object st = Some st' \<Longrightarrow>
     \<exists>mid. snd st' = snd st @ Acquire object # mid @ [Release object] \<and>
           trace_ok (fst st) (fst st') (Acquire object # mid @ [Release object]) \<and>
           (\<forall>stk. lock_stack mid stk = Some stk)"
  "drop_fields object i n st = Some st' \<Longrightarrow>
     \<exists>mid. snd st' = snd st @ mid \<and> trace_ok (fst st) (fst st') mid"
proof (induction object st and object i n st arbitrary: st' and st'
    rule: drop_object_for_cyclic_type_drop_fields.induct)
  case (1 object h tr)
  from 1(2) obtain h1 h2 tr2 h3 h4 where
    l: "lock object h = Some h1"
    and f: "drop_fields object 0 (length (fields_of h1 object)) (h1, tr @ [Acquire object]) = Some (h2, tr2)"
    and u: "unlock object h2 = Some h3"
    and r: "store_ready object h3 = Some h4"
    and s: "st' = (h4, tr2 @ [Release object])"
    by (auto simp: drop_object_for_cyclic_type.simps split: option.splits prod.splits)
  from 1(1) [OF l f] obtain mid where
    m: "tr2 = (tr @ [Acquire object]) @ mid" "trace_ok h1 h2 mid" by auto
  from trace_ok_wrap [OF m(2) l u r] m(1) m(2) show ?case
    by (auto simp: s trace_ok_def)
next
  case (2 object i n h tr)
  note eq = 2(5)
  note simp = drop_fields.simps [of object i n h tr]
  show ?case
  proof (cases "i < n")
    case False
    with eq show ?thesis by (auto simp: simp intro: trace_ok_nil)
  next
    case True
    from True eq obtain v where ld: "load_field object i h = Some v"
      by (auto simp: simp split: option.splits)
    show ?thesis
    proof (cases v)
      case None
      with True ld eq have "drop_fields object (Suc i) n (h, tr) = Some st'"
        by (simp add: simp)
      with 2(1) True ld None show ?thesis by simp
    next
      case (Some fo)
      from True ld Some eq obtain c h1 where fs: "fetch_sub fo h = Some (c, h1)"
        by (auto simp: simp split: option.splits)
      note t1 = trace_ok_fetch_sub [OF fs]
      show ?thesis
      proof (cases "c = 1")
        case c: True
        from True ld Some fs c eq obtain h2 st1 where
          w: "(if cyclic_and_buffered h1 fo then store_field object i None h1 else Some h1) = Some h2"
          and d: "drop_object_for_cyclic_type fo (h2, tr @ [FetchSub fo]) = Some st1"
          and rest: "drop_fields object (Suc i) n st1 = Some st'"
          by (auto simp: simp split: option.splits)
        from w have "\<And>a. ref_count h2 a = ref_count h1 a"
          by (auto split: if_splits simp: store_field_ref_count)
        then have t2: "trace_ok h1 h2 []" by (rule trace_ok_nil)
        from 2(2) True ld Some fs c w d
        have "\<exists>mid. snd st1 = (tr @ [FetchSub fo]) @ Acquire fo # mid @ [Release fo] \<and>
           trace_ok h2 (fst st1) (Acquire fo # mid @ [Release fo]) \<and>
           (\<forall>stk. lock_stack mid stk = Some stk)" by simp
        then obtain m3 where m3: "snd st1 = (tr @ [FetchSub fo]) @ m3" "trace_ok h2 (fst st1) m3"
          by blast
        from 2(3) True ld Some fs c w d rest
        have "\<exists>mid. snd st' = snd st1 @ mid \<and> trace_ok (fst st1) (fst st') mid" by simp
        then obtain m4 where m4: "snd st' = snd st1 @ m4" "trace_ok (fst st1) (fst st') m4"
          by blast
        have "trace_ok h (fst st') ([FetchSub fo] @ [] @ m3 @ m4)"
          by (rule trace_ok_append [OF t1 trace_ok_append [OF t2 trace_ok_append [OF m3(2) m4(2)]]])
        moreover have "snd st' = tr @ ([FetchSub fo] @ [] @ m3 @ m4)" using m3(1) m4(1) by simp
        ultimately show ?thesis by auto
      next
        case c: False
        from True ld Some fs c eq obtain h2 where
          w: "store_field object i None h1 = Some h2"
          and rest: "drop_fields object (Suc i) n (h2, tr @ [FetchSub fo]) = Some st'"
          by (auto simp: simp split: option.splits)
        have t2: "trace_ok h1 h2 []"
          by (rule trace_ok_nil) (rule store_field_ref_count [OF w])
        from 2(4) True ld Some fs c w rest
        have "\<exists>mid. snd st' = (tr @ [FetchSub fo]) @ mid \<and> trace_ok h2 (fst st') mid" by simp
        then obtain m4 where m4: "snd st' = (tr @ [FetchSub fo]) @ m4" "trace_ok h2 (fst st') m4"
          by blast
        have "trace_ok h (fst st') ([FetchSub fo] @ [] @ m4)"
          by (rule trace_ok_append [OF t1 trace_ok_append [OF t2 m4(2)]])
        moreover have "snd st' = tr @ ([FetchSub fo] @ [] @ m4)" using m4(1) by simp
        ultimately show ?thesis by auto
      qed
    qed
  qed
qed


section \<open>The slots after a deferred release\<close>




lemma fetch_sub_fields: "fetch_sub fo h = Some (c, h1) \<Longrightarrow> fields_of h1 x = fields_of h x"
  by (auto simp: fetch_sub_def fields_of_def split: option.splits if_splits)





lemma unlock_ready: "unlock a h = Some h' \<Longrightarrow> ready h' x = ready h x"
  by (auto simp: unlock_def ready_def split: option.splits if_splits)



text \<open>A parent whose count has reached zero and its only child, held by the parent alone.\<close>

definition parent_child :: heap where
  "parent_child =
     fmupd 0 (example_object 0 [Some 1]) (fmupd 1 (example_object 1 []) fmempty)"

lemma parent_child_run:
  "\<exists>h'. drop_object_for_cyclic_type 0 (parent_child, [])
           = Some (h', [Acquire 0, FetchSub 1, Acquire 1, Release 1, Release 0]) \<and>
        fields_of h' 0 = [Some 1]"
  by (simp add: drop_object_for_cyclic_type.simps drop_fields.simps parent_child_def
      example_object_def lock_def unlock_def fields_of_def load_field_def fetch_sub_def
      store_field_def store_ready_def cyclic_and_buffered_def)

section \<open>Claims about the deferred release\<close>




text \<open>
  C4, as stated: the routine never holds two object locks at once, because
  it releases the current object's lock before it recurses into a child.  On
  the parent and child above the routine takes the child's lock while it
  holds the parent's: two locks are held at once.
\<close>

theorem drop_object_two_locks_counterexample:
  "\<exists>h' tr'. drop_object_for_cyclic_type 0 (parent_child, []) = Some (h', tr') \<and>
     tr' = [Acquire 0, FetchSub 1, Acquire 1, Release 1, Release 0] \<and>
     max_held 0 tr' = 2"
proof -
  from parent_child_run obtain h' where
    "drop_object_for_cyclic_type 0 (parent_child, [])
       = Some (h', [Acquire 0, FetchSub 1, Acquire 1, Release 1, Release 0])" by blast
  then show ?thesis by simp
qed

text \<open>
  C4, amended: the routine takes the current object's lock, keeps it while it
  processes the slots and recurses into children, and releases it after the
  loop.  The locks taken in between are taken and released in nested,
  last-in-first-out order above it, so the locks held at any moment are those
  of the objects on the current chain of recursive calls; when the routine
  returns every lock is as it was before the call.
\<close>

theorem drop_object_for_cyclic_type_locks_nested:
  assumes "drop_object_for_cyclic_type object (h, tr) = Some (h', tr')"
  shows "\<exists>mid. tr' = tr @ Acquire object # mid @ [Release object] \<and>
           (\<forall>stk. lock_stack mid stk = Some stk) \<and>
           (\<forall>stk. lock_stack (Acquire object # mid @ [Release object]) stk = Some stk) \<and>
           (\<forall>a. locked h' a = locked h a)"
proof -
  from drop_trace(1) [OF assms] obtain mid where
    tr': "tr' = tr @ Acquire object # mid @ [Release object]"
    and ok: "trace_ok h h' (Acquire object # mid @ [Release object])"
    and mid: "\<forall>stk. lock_stack mid stk = Some stk" by auto
  from drop_ext_result(1) [OF assms] have "drop_ext {} h h'" by simp
  then have "\<forall>a. locked h' a = locked h a" by (simp add: drop_ext_props(1))
  with tr' ok mid show ?thesis unfolding trace_ok_def by blast
qed

theorem drop_object_for_cyclic_type_locks_nested_witness:
  "\<exists>h' tr'. drop_object_for_cyclic_type 0 (parent_child, []) = Some (h', tr') \<and>
     (\<exists>mid. tr' = [] @ Acquire 0 # mid @ [Release 0] \<and>
        (\<forall>stk. lock_stack mid stk = Some stk) \<and>
        (\<forall>stk. lock_stack (Acquire 0 # mid @ [Release 0]) stk = Some stk) \<and>
        (\<forall>a. locked h' a = locked parent_child a))"
proof -
  from parent_child_run obtain h' tr' where
    r: "drop_object_for_cyclic_type 0 (parent_child, []) = Some (h', tr')" by blast
  from drop_object_for_cyclic_type_locks_nested [OF r] r show ?thesis by blast
qed


section \<open>Mark gray, mark white, mark black\<close>

text \<open>
  The two maps of a scan are \<^verbatim>\<open>unordered_map\<close>s read with \<^verbatim>\<open>operator[]\<close>,
  which inserts the default value (the colour \<^verbatim>\<open>red\<close>, numbered 0, and the
  count 0) for a key that is missing.  The heap is only read by these phases.
\<close>

definition color_at :: "color_map \<Rightarrow> addr \<Rightarrow> object_color" where
  "color_at cm a = (case cm a of None \<Rightarrow> red | Some c \<Rightarrow> c)"

definition count_at :: "count_map \<Rightarrow> addr \<Rightarrow> size_t" where
  "count_at cnt a = (case cnt a of None \<Rightarrow> 0 | Some c \<Rightarrow> c)"

type_synonym scan_state = "color_map \<times> count_map"

function mark_gray :: "heap \<Rightarrow> addr \<Rightarrow> bool \<Rightarrow> scan_state \<Rightarrow> scan_state option"
  and mark_gray_fields :: "heap \<Rightarrow> addr option list \<Rightarrow> scan_state \<Rightarrow> scan_state option"
where
  "mark_gray h current_object is_first (color_map, count_map) =
     (if color_at color_map current_object = gray
      then Some (color_map,
                 count_map(current_object \<mapsto> count_at count_map current_object - 1))
      else case fmlookup h current_object of
             None \<Rightarrow> None
           | Some ob \<Rightarrow>
               mark_gray_fields h (obj_fields ob)
                 (color_map(current_object \<mapsto> gray),
                  count_map(current_object \<mapsto>
                    (if is_first then reference_count ob else reference_count ob - 1))))"
| "mark_gray_fields h [] st = Some st"
| "mark_gray_fields h (None # fs) st = mark_gray_fields h fs st"
| "mark_gray_fields h (Some field_object # fs) st =
     (case mark_gray h field_object False st of
        None \<Rightarrow> None
      | Some st' \<Rightarrow> mark_gray_fields h fs st')"
  by pat_completeness auto

text \<open>The allocated objects that do not have a given colour, and those that have it.\<close>

definition without_color :: "heap \<Rightarrow> object_color \<Rightarrow> scan_state \<Rightarrow> addr set" where
  "without_color h c st = {a \<in> fmdom' h. color_at (fst st) a \<noteq> c}"

definition with_color :: "heap \<Rightarrow> object_color \<Rightarrow> scan_state \<Rightarrow> addr set" where
  "with_color h c st = {a \<in> fmdom' h. color_at (fst st) a = c}"

lemma finite_without_color: "finite (without_color h c st)"
  by (simp add: without_color_def)

lemma finite_with_color: "finite (with_color h c st)"
  by (simp add: with_color_def)

lemma without_color_step:
  assumes "fmlookup h a = Some ob" "color_at cm a \<noteq> c"
  shows "without_color h c (cm(a \<mapsto> c), cnt') \<subset> without_color h c (cm, cnt)"
proof -
  have "a \<in> without_color h c (cm, cnt)"
    using assms by (simp add: without_color_def fmdom'I)
  moreover have "a \<notin> without_color h c (cm(a \<mapsto> c), cnt')"
    by (simp add: without_color_def color_at_def)
  moreover have "without_color h c (cm(a \<mapsto> c), cnt') \<subseteq> without_color h c (cm, cnt)"
    by (auto simp: without_color_def color_at_def split: if_splits)
  ultimately show ?thesis by blast
qed

lemma mark_gray_without_dom:
  "mark_gray_mark_gray_fields_dom (Inl (h, cur, b, st)) \<Longrightarrow>
     mark_gray h cur b st = Some st' \<Longrightarrow> without_color h gray st' \<subseteq> without_color h gray st"
  "mark_gray_mark_gray_fields_dom (Inr (h, fs, st)) \<Longrightarrow>
     mark_gray_fields h fs st = Some st' \<Longrightarrow> without_color h gray st' \<subseteq> without_color h gray st"
proof (induction h cur b st and h fs st arbitrary: st' and st'
    rule: mark_gray_mark_gray_fields.pinduct)
  case (1 h cur b cm cnt)
  note psimp = mark_gray.psimps [OF 1(1)]
  show ?case
  proof (cases "color_at cm cur = gray")
    case True
    with 1(3) show ?thesis by (auto simp: psimp without_color_def)
  next
    case False
    with 1(3) obtain ob where ob: "fmlookup h cur = Some ob"
      and r: "mark_gray_fields h (obj_fields ob)
                (cm(cur \<mapsto> gray),
                 cnt(cur \<mapsto> (if b then reference_count ob else reference_count ob - 1))) = Some st'"
      by (auto simp: psimp split: option.splits)
    from 1(2) [OF False ob r] without_color_step [OF ob False]
    show ?thesis by blast
  qed
next
  case (2 h st)
  then show ?case by (simp add: mark_gray_fields.psimps)
next
  case (3 h fs st)
  then show ?case by (simp add: mark_gray_fields.psimps)
next
  case (4 h f fs st)
  from 4(1,4) obtain st1 where a: "mark_gray h f False st = Some st1"
    and b: "mark_gray_fields h fs st1 = Some st'"
    by (auto simp: mark_gray_fields.psimps split: option.splits)
  from 4(2) [OF a] 4(3) [OF a b] show ?case by blast
qed

termination mark_gray
proof (relation "inv_image (finite_psubset <*lex*> less_than)
    (\<lambda>x. case x of Inl (h, cur, b, st) \<Rightarrow> (without_color h gray st, 0)
                 | Inr (h, fs, st) \<Rightarrow> (without_color h gray st, Suc (length fs)))", goal_cases)
  case 1
  show ?case by (intro wf_inv_image wf_lex_prod wf_finite_psubset wf_less_than)
next
  case (2 h cur b cm cnt ob)
  then show ?case
    using without_color_step [of h cur ob cm gray]
    by (simp add: finite_psubset_def finite_without_color)
next
  case 3
  then show ?case by simp
next
  case 4
  then show ?case by simp
next
  case (5 h f fs st st1)
  from mark_gray_without_dom(1) [OF 5(2) 5(1)]
  show ?case by (auto simp: finite_psubset_def finite_without_color)
qed

declare mark_gray.simps [simp del]

function mark_black :: "heap \<Rightarrow> addr \<Rightarrow> scan_state \<Rightarrow> scan_state option"
  and mark_black_fields :: "heap \<Rightarrow> addr option list \<Rightarrow> scan_state \<Rightarrow> scan_state option"
where
  "mark_black h current_object (color_map, count_map) =
     (if color_at color_map current_object = black
      then Some (color_map, count_map)
      else case fmlookup h current_object of
             None \<Rightarrow> None
           | Some ob \<Rightarrow>
               mark_black_fields h (obj_fields ob)
                 (color_map(current_object \<mapsto> black), count_map))"
| "mark_black_fields h [] st = Some st"
| "mark_black_fields h (None # fs) st = mark_black_fields h fs st"
| "mark_black_fields h (Some field_object # fs) st =
     (case mark_black h field_object st of
        None \<Rightarrow> None
      | Some st' \<Rightarrow> mark_black_fields h fs st')"
  by pat_completeness auto

lemma mark_black_without_dom:
  "mark_black_mark_black_fields_dom (Inl (h, cur, st)) \<Longrightarrow>
     mark_black h cur st = Some st' \<Longrightarrow> without_color h black st' \<subseteq> without_color h black st"
  "mark_black_mark_black_fields_dom (Inr (h, fs, st)) \<Longrightarrow>
     mark_black_fields h fs st = Some st' \<Longrightarrow> without_color h black st' \<subseteq> without_color h black st"
proof (induction h cur st and h fs st arbitrary: st' and st'
    rule: mark_black_mark_black_fields.pinduct)
  case (1 h cur cm cnt)
  note psimp = mark_black.psimps [OF 1(1)]
  show ?case
  proof (cases "color_at cm cur = black")
    case True
    with 1(3) show ?thesis
      by (auto simp: psimp without_color_def color_at_def split: option.splits if_splits)
  next
    case False
    with 1(3) obtain ob where ob: "fmlookup h cur = Some ob"
      and r: "mark_black_fields h (obj_fields ob) (cm(cur \<mapsto> black), cnt) = Some st'"
      by (auto simp: psimp split: option.splits)
    from 1(2) [OF False ob r] without_color_step [OF ob False]
    show ?thesis by blast
  qed
next
  case (2 h st)
  then show ?case by (simp add: mark_black_fields.psimps)
next
  case (3 h fs st)
  then show ?case by (simp add: mark_black_fields.psimps)
next
  case (4 h f fs st)
  from 4(1,4) obtain st1 where a: "mark_black h f st = Some st1"
    and b: "mark_black_fields h fs st1 = Some st'"
    by (auto simp: mark_black_fields.psimps split: option.splits)
  from 4(2) [OF a] 4(3) [OF a b] show ?case by blast
qed

termination mark_black
proof (relation "inv_image (finite_psubset <*lex*> less_than)
    (\<lambda>x. case x of Inl (h, cur, st) \<Rightarrow> (without_color h black st, 0)
                 | Inr (h, fs, st) \<Rightarrow> (without_color h black st, Suc (length fs)))", goal_cases)
  case 1
  show ?case by (intro wf_inv_image wf_lex_prod wf_finite_psubset wf_less_than)
next
  case (2 h cur cm cnt ob)
  then show ?case
    using without_color_step [of h cur ob cm black]
    by (simp add: finite_psubset_def finite_without_color)
next
  case 3
  then show ?case by simp
next
  case 4
  then show ?case by simp
next
  case (5 h f fs st st1)
  from mark_black_without_dom(1) [OF 5(2) 5(1)]
  show ?case by (auto simp: finite_psubset_def finite_without_color)
qed

declare mark_black.simps [simp del]


lemma mark_black_post:
  "mark_black h cur st = Some st' \<Longrightarrow>
     snd st' = snd st \<and> (\<forall>x. fst st' x = fst st x \<or> fst st' x = Some black)"
  "mark_black_fields h fs st = Some st' \<Longrightarrow>
     snd st' = snd st \<and> (\<forall>x. fst st' x = fst st x \<or> fst st' x = Some black)"
proof (induction h cur st and h fs st arbitrary: st' and st'
    rule: mark_black_mark_black_fields.induct)
  case (1 h cur cm cnt)
  show ?case
  proof (cases "color_at cm cur = black")
    case True
    with 1(2) show ?thesis by (auto simp: mark_black.simps)
  next
    case False
    with 1(2) obtain ob where ob: "fmlookup h cur = Some ob"
      and r: "mark_black_fields h (obj_fields ob) (cm(cur \<mapsto> black), cnt) = Some st'"
      by (auto simp: mark_black.simps split: option.splits)
    from 1(1) [OF False ob r] show ?thesis by (auto split: if_splits)
  qed
next
  case (2 h st)
  then show ?case by simp
next
  case (3 h fs st)
  then show ?case by simp
next
  case (4 h f fs st)
  from 4(3) obtain st1 where a: "mark_black h f st = Some st1"
    and b: "mark_black_fields h fs st1 = Some st'"
    by (auto split: option.splits)
  from 4(1) [OF a] 4(2) [OF a b] show ?case by (metis (no_types))
qed

text \<open>
  \<^verbatim>\<open>mark_white\<close>: the reads \<^verbatim>\<open>color_map[current_object]\<close> and
  \<^verbatim>\<open>count_map[current_object]\<close> leave the default entries behind.
\<close>

definition color_index :: "color_map \<Rightarrow> addr \<Rightarrow> color_map" where
  "color_index cm a = (case cm a of None \<Rightarrow> cm(a \<mapsto> red) | Some c \<Rightarrow> cm)"

definition count_index :: "count_map \<Rightarrow> addr \<Rightarrow> count_map" where
  "count_index cnt a = (case cnt a of None \<Rightarrow> cnt(a \<mapsto> 0) | Some c \<Rightarrow> cnt)"

function mark_white :: "heap \<Rightarrow> addr \<Rightarrow> scan_state \<Rightarrow> scan_state option"
  and mark_white_fields :: "heap \<Rightarrow> addr option list \<Rightarrow> scan_state \<Rightarrow> scan_state option"
where
  "mark_white h current_object (color_map, count_map) =
     (if color_at color_map current_object \<noteq> gray
      then Some (color_index color_map current_object, count_map)
      else if count_at count_map current_object \<noteq> 0
      then mark_black h current_object (color_map, count_index count_map current_object)
      else case fmlookup h current_object of
             None \<Rightarrow> None
           | Some ob \<Rightarrow>
               mark_white_fields h (obj_fields ob)
                 (color_map(current_object \<mapsto> white), count_index count_map current_object))"
| "mark_white_fields h [] st = Some st"
| "mark_white_fields h (None # fs) st = mark_white_fields h fs st"
| "mark_white_fields h (Some field_object # fs) st =
     (case mark_white h field_object st of
        None \<Rightarrow> None
      | Some st' \<Rightarrow> mark_white_fields h fs st')"
  by pat_completeness auto

lemma color_at_index: "color_at (color_index cm a) x = color_at cm x"
  by (auto simp: color_at_def color_index_def split: option.splits)

lemma count_at_index: "count_at (count_index cnt a) x = count_at cnt x"
  by (auto simp: count_at_def count_index_def split: option.splits)

lemma with_color_step:
  assumes "fmlookup h a = Some ob" "color_at cm a = c" "c' \<noteq> c"
  shows "with_color h c (cm(a \<mapsto> c'), cnt') \<subset> with_color h c (cm, cnt)"
proof -
  have "a \<in> with_color h c (cm, cnt)"
    using assms by (simp add: with_color_def fmdom'I)
  moreover have "a \<notin> with_color h c (cm(a \<mapsto> c'), cnt')"
    using assms by (simp add: with_color_def color_at_def)
  moreover have "with_color h c (cm(a \<mapsto> c'), cnt') \<subseteq> with_color h c (cm, cnt)"
    using assms by (auto simp: with_color_def color_at_def split: if_splits)
  ultimately show ?thesis by blast
qed

lemma mark_black_with_gray:
  assumes "mark_black h cur (cm, cnt) = Some st'"
  shows "with_color h gray st' \<subseteq> with_color h gray (cm, cnt0)"
proof -
  from mark_black_post(1) [OF assms]
  have "\<forall>x. fst st' x = cm x \<or> fst st' x = Some black" by simp
  then have "color_at (fst st') x = gray \<Longrightarrow> color_at cm x = gray" for x
    by (auto simp: color_at_def dest!: spec [of _ x])
  then show ?thesis by (auto simp: with_color_def)
qed

lemma mark_white_with_dom:
  "mark_white_mark_white_fields_dom (Inl (h, cur, st)) \<Longrightarrow>
     mark_white h cur st = Some st' \<Longrightarrow> with_color h gray st' \<subseteq> with_color h gray st"
  "mark_white_mark_white_fields_dom (Inr (h, fs, st)) \<Longrightarrow>
     mark_white_fields h fs st = Some st' \<Longrightarrow> with_color h gray st' \<subseteq> with_color h gray st"
proof (induction h cur st and h fs st arbitrary: st' and st'
    rule: mark_white_mark_white_fields.pinduct)
  case (1 h cur cm cnt)
  note psimp = mark_white.psimps [OF 1(1)]
  show ?case
  proof (cases "color_at cm cur \<noteq> gray")
    case True
    with 1(3) show ?thesis by (auto simp: psimp with_color_def color_at_index)
  next
    case g: False
    show ?thesis
    proof (cases "count_at cnt cur \<noteq> 0")
      case True
      with g 1(3) have "mark_black h cur (cm, count_index cnt cur) = Some st'"
        by (simp add: psimp)
      then show ?thesis by (rule mark_black_with_gray)
    next
      case False
      with g 1(3) obtain ob where ob: "fmlookup h cur = Some ob"
        and r: "mark_white_fields h (obj_fields ob) (cm(cur \<mapsto> white), count_index cnt cur) = Some st'"
        by (auto simp: psimp split: option.splits)
      from g have g': "color_at cm cur = gray" by simp
      from 1(2) [OF g False ob r] with_color_step [OF ob g', of white]
      show ?thesis by blast
    qed
  qed
next
  case (2 h st)
  then show ?case by (simp add: mark_white_fields.psimps)
next
  case (3 h fs st)
  then show ?case by (simp add: mark_white_fields.psimps)
next
  case (4 h f fs st)
  from 4(1,4) obtain st1 where a: "mark_white h f st = Some st1"
    and b: "mark_white_fields h fs st1 = Some st'"
    by (auto simp: mark_white_fields.psimps split: option.splits)
  from 4(2) [OF a] 4(3) [OF a b] show ?case by blast
qed

termination mark_white
proof (relation "inv_image (finite_psubset <*lex*> less_than)
    (\<lambda>x. case x of Inl (h, cur, st) \<Rightarrow> (with_color h gray st, 0)
                 | Inr (h, fs, st) \<Rightarrow> (with_color h gray st, Suc (length fs)))", goal_cases)
  case 1
  show ?case by (intro wf_inv_image wf_lex_prod wf_finite_psubset wf_less_than)
next
  case (2 h cur cm cnt ob)
  then show ?case
    using with_color_step [of h cur ob cm gray white]
    by (simp add: finite_psubset_def finite_with_color)
next
  case 3
  then show ?case by simp
next
  case 4
  then show ?case by simp
next
  case (5 h f fs st st1)
  from mark_white_with_dom(1) [OF 5(2) 5(1)]
  show ?case by (auto simp: finite_psubset_def finite_with_color)
qed

declare mark_white.simps [simp del]

text \<open>
  What mark white does to the maps: the counts read the same, an object that
  is white afterwards was white already or was gray with count zero, and no
  object becomes gray.
\<close>

definition white_post :: "scan_state \<Rightarrow> scan_state \<Rightarrow> bool" where
  "white_post st st' \<longleftrightarrow>
     (\<forall>x. count_at (snd st') x = count_at (snd st) x) \<and>
     (\<forall>x. fst st' x = Some white \<longrightarrow>
          fst st x = Some white \<or> (fst st x = Some gray \<and> count_at (snd st) x = 0)) \<and>
     (\<forall>x. fst st' x = Some gray \<longrightarrow> fst st x = Some gray)"

lemma white_post_refl: "white_post st st"
  by (simp add: white_post_def)

lemma white_post_trans:
  assumes "white_post st st1" "white_post st1 st2"
  shows "white_post st st2"
proof -
  have "count_at (snd st2) x = count_at (snd st) x" for x
    using assms by (simp add: white_post_def)
  moreover have "fst st x = Some white \<or> (fst st x = Some gray \<and> count_at (snd st) x = 0)"
    if "fst st2 x = Some white" for x
  proof -
    from assms(2) that
    have "fst st1 x = Some white \<or> (fst st1 x = Some gray \<and> count_at (snd st1) x = 0)"
      by (simp add: white_post_def)
    with assms(1) show ?thesis by (auto simp: white_post_def)
  qed
  moreover have "fst st x = Some gray" if "fst st2 x = Some gray" for x
    using assms that by (simp add: white_post_def)
  ultimately show ?thesis unfolding white_post_def by blast
qed

lemma white_post_black:
  assumes "mark_black h cur (cm, count_index cnt a) = Some st'"
  shows "white_post (cm, cnt) st'"
proof -
  from mark_black_post(1) [OF assms] have c: "snd st' = count_index cnt a"
    and b: "\<And>x. fst st' x = cm x \<or> fst st' x = Some black" by auto
  have "cm x = Some white" if "fst st' x = Some white" for x
    using b [of x] that by auto
  moreover have "cm x = Some gray" if "fst st' x = Some gray" for x
    using b [of x] that by auto
  ultimately show ?thesis unfolding white_post_def by (simp add: c count_at_index)
qed

lemma white_post_step:
  assumes "cm cur = Some gray" "count_at cnt cur = 0"
  shows "white_post (cm, cnt) (cm(cur \<mapsto> white), count_index cnt cur)"
  using assms unfolding white_post_def by (auto simp: count_at_index)

lemma mark_white_post:
  "mark_white h cur st = Some st' \<Longrightarrow> white_post st st'"
  "mark_white_fields h fs st = Some st' \<Longrightarrow> white_post st st'"
proof (induction h cur st and h fs st arbitrary: st' and st'
    rule: mark_white_mark_white_fields.induct)
  case (1 h cur cm cnt)
  show ?case
  proof (cases "color_at cm cur \<noteq> gray")
    case True
    with 1(2) have "st' = (color_index cm cur, cnt)" by (simp add: mark_white.simps)
    then show ?thesis
      unfolding white_post_def by (auto simp: color_index_def split: option.splits if_splits)
  next
    case g: False
    then have cg: "cm cur = Some gray" by (auto simp: color_at_def split: option.splits)
    show ?thesis
    proof (cases "count_at cnt cur \<noteq> 0")
      case True
      with g 1(2) have "mark_black h cur (cm, count_index cnt cur) = Some st'"
        by (simp add: mark_white.simps)
      then show ?thesis by (rule white_post_black)
    next
      case False
      with g 1(2) obtain ob where ob: "fmlookup h cur = Some ob"
        and r: "mark_white_fields h (obj_fields ob) (cm(cur \<mapsto> white), count_index cnt cur) = Some st'"
        by (auto simp: mark_white.simps split: option.splits)
      from False have "count_at cnt cur = 0" by simp
      with cg have "white_post (cm, cnt) (cm(cur \<mapsto> white), count_index cnt cur)"
        by (rule white_post_step)
      from this 1(1) [OF g False ob r]
      show ?thesis by (rule white_post_trans)
    qed
  qed
next
  case (2 h st)
  then show ?case by (simp add: white_post_refl)
next
  case (3 h fs st)
  then show ?case by simp
next
  case (4 h f fs st)
  from 4(3) obtain st1 where a: "mark_white h f st = Some st1"
    and b: "mark_white_fields h fs st1 = Some st'"
    by (auto split: option.splits)
  from 4(1) [OF a] 4(2) [OF a b] show ?case by (rule white_post_trans)
qed


section \<open>The counts after mark gray\<close>

text \<open>
  \<open>mult h y x\<close> is the number of slots of \<open>y\<close> that hold \<open>x\<close>, and
  \<open>in_degree h S x\<close> the number of slots of objects of \<open>S\<close> that hold \<open>x\<close>.
\<close>

definition mult :: "heap \<Rightarrow> addr \<Rightarrow> addr \<Rightarrow> nat" where
  "mult h y x = count_list (fields_of h y) (Some x)"

definition in_degree :: "heap \<Rightarrow> addr set \<Rightarrow> addr \<Rightarrow> nat" where
  "in_degree h S x = (\<Sum>y\<in>S. mult h y x)"

definition grays :: "color_map \<Rightarrow> addr set" where
  "grays cm = {a. cm a = Some gray}"

lemma color_at_gray: "color_at cm a = gray \<longleftrightarrow> a \<in> grays cm"
  by (auto simp: color_at_def grays_def split: option.splits)

lemma mult_pos_edge: "0 < mult h y x \<longleftrightarrow> (y, x) \<in> edges h"
  by (simp add: mult_def edges_def count_list_0_iff zero_less_iff_neq_zero)

lemma in_degree_empty: "in_degree h {} x = 0"
  by (simp add: in_degree_def)

lemma in_degree_union:
  "finite A \<Longrightarrow> finite B \<Longrightarrow> A \<inter> B = {} \<Longrightarrow>
     in_degree h (A \<union> B) x = in_degree h A x + in_degree h B x"
  by (simp add: in_degree_def sum.union_disjoint)

lemma in_degree_insert:
  "finite A \<Longrightarrow> a \<notin> A \<Longrightarrow> in_degree h (insert a A) x = mult h a x + in_degree h A x"
  by (simp add: in_degree_def)

lemma in_degree_zero:
  assumes "\<And>y. y \<in> A \<Longrightarrow> (y, x) \<notin> edges h"
  shows "in_degree h A x = 0"
proof -
  have "mult h y x = 0" if "y \<in> A" for y
    using assms [OF that] mult_pos_edge [of h y x] by simp
  then show ?thesis by (simp add: in_degree_def)
qed

text \<open>
  What a call of mark gray adds, for a start set \<open>S\<close> entered \<open>c0 x\<close> times
  at \<open>x\<close>: the newly gray objects \<open>N\<close> are allocated, reachable from \<open>S\<close> and
  have all their successors gray; the other colours are untouched; and the
  count of \<open>x\<close> has gone down by \<open>c0 x\<close> plus the number of slots of \<open>N\<close>
  that hold \<open>x\<close>, starting from the reference count when \<open>x\<close> is newly gray.
\<close>

definition gray_post :: "heap \<Rightarrow> (addr \<Rightarrow> nat) \<Rightarrow> addr set \<Rightarrow> scan_state \<Rightarrow> scan_state \<Rightarrow> bool" where
  "gray_post h c0 S st st' \<longleftrightarrow>
     grays (fst st) \<subseteq> grays (fst st') \<and> S \<subseteq> grays (fst st') \<and>
     grays (fst st') - grays (fst st) \<subseteq> fmdom' h \<and>
     grays (fst st') - grays (fst st) \<subseteq> (edges h)\<^sup>* `` S \<and>
     (\<forall>y\<in>grays (fst st') - grays (fst st). edges h `` {y} \<subseteq> grays (fst st')) \<and>
     (\<forall>x. x \<notin> grays (fst st') \<longrightarrow> fst st' x = fst st x) \<and>
     (\<forall>x. count_at (snd st') x =
        (if x \<in> grays (fst st)
         then count_at (snd st) x
                - of_nat (c0 x + in_degree h (grays (fst st') - grays (fst st)) x)
         else if x \<in> grays (fst st')
         then ref_count h x
                - of_nat (c0 x + in_degree h (grays (fst st') - grays (fst st)) x)
         else count_at (snd st) x))"

lemma gray_post_refl: "gray_post h (\<lambda>x. 0) {} st st"
  by (simp add: gray_post_def in_degree_empty)

lemma gray_post_comp:
  assumes p1: "gray_post h c1 S1 st st1" and p2: "gray_post h c2 S2 st1 st2"
    and s1: "\<And>x. 0 < c1 x \<Longrightarrow> x \<in> S1"
  shows "gray_post h (\<lambda>x. c1 x + c2 x) (S1 \<union> S2) st st2"
proof -
  let ?G = "grays (fst st)" and ?G1 = "grays (fst st1)" and ?G2 = "grays (fst st2)"
  let ?N1 = "?G1 - ?G" and ?N2 = "?G2 - ?G1" and ?N = "?G2 - ?G"
  let ?E = "edges h"
  from p1 have a1: "?G \<subseteq> ?G1" "S1 \<subseteq> ?G1" "?N1 \<subseteq> fmdom' h" "?N1 \<subseteq> ?E\<^sup>* `` S1"
    and cl1: "\<And>y. y \<in> ?N1 \<Longrightarrow> ?E `` {y} \<subseteq> ?G1"
    and col1: "\<And>x. x \<notin> ?G1 \<Longrightarrow> fst st1 x = fst st x"
    and cnt1: "\<And>x. count_at (snd st1) x =
        (if x \<in> ?G then count_at (snd st) x - of_nat (c1 x + in_degree h ?N1 x)
         else if x \<in> ?G1 then ref_count h x - of_nat (c1 x + in_degree h ?N1 x)
         else count_at (snd st) x)"
    unfolding gray_post_def by blast+
  from p2 have a2: "?G1 \<subseteq> ?G2" "S2 \<subseteq> ?G2" "?N2 \<subseteq> fmdom' h" "?N2 \<subseteq> ?E\<^sup>* `` S2"
    and cl2: "\<And>y. y \<in> ?N2 \<Longrightarrow> ?E `` {y} \<subseteq> ?G2"
    and col2: "\<And>x. x \<notin> ?G2 \<Longrightarrow> fst st2 x = fst st1 x"
    and cnt2: "\<And>x. count_at (snd st2) x =
        (if x \<in> ?G1 then count_at (snd st1) x - of_nat (c2 x + in_degree h ?N2 x)
         else if x \<in> ?G2 then ref_count h x - of_nat (c2 x + in_degree h ?N2 x)
         else count_at (snd st1) x)"
    unfolding gray_post_def by blast+
  have N: "?N = ?N1 \<union> ?N2" using a1(1) a2(1) by auto
  have fin: "finite ?N1" "finite ?N2"
    using a1(3) a2(3) by (auto intro: finite_subset [OF _ finite_fmdom'])
  have deg: "in_degree h ?N x = in_degree h ?N1 x + in_degree h ?N2 x" for x
    unfolding N by (rule in_degree_union [OF fin]) auto
  have z1: "c1 x + in_degree h ?N1 x = 0" if "x \<notin> ?G1" for x
  proof -
    have "c1 x = 0" using s1 [of x] a1(2) that by auto
    moreover have "in_degree h ?N1 x = 0"
      by (rule in_degree_zero) (use cl1 that in auto)
    ultimately show ?thesis by simp
  qed
  have A: "?G \<subseteq> ?G2" using a1(1) a2(1) by auto
  have B: "S1 \<union> S2 \<subseteq> ?G2" using a1(2) a2(1,2) by auto
  have C: "?N \<subseteq> fmdom' h" unfolding N using a1(3) a2(3) by auto
  have D: "?N \<subseteq> ?E\<^sup>* `` (S1 \<union> S2)" unfolding N using a1(4) a2(4) by auto
  have E: "\<forall>y\<in>?N. ?E `` {y} \<subseteq> ?G2"
  proof
    fix y assume "y \<in> ?N"
    then consider "y \<in> ?N1" | "y \<in> ?N2" unfolding N by auto
    then show "?E `` {y} \<subseteq> ?G2"
    proof cases
      case 1
      from cl1 [OF 1] a2(1) show ?thesis by auto
    next
      case 2
      from cl2 [OF 2] show ?thesis .
    qed
  qed
  have F: "\<forall>x. x \<notin> ?G2 \<longrightarrow> fst st2 x = fst st x"
    using col1 col2 a2(1) by auto
  have G: "count_at (snd st2) x =
        (if x \<in> ?G then count_at (snd st) x - of_nat ((c1 x + c2 x) + in_degree h ?N x)
         else if x \<in> ?G2 then ref_count h x - of_nat ((c1 x + c2 x) + in_degree h ?N x)
         else count_at (snd st) x)" for x
  proof (cases "x \<in> ?G1")
    case True
    with cnt2 [of x] cnt1 [of x] show ?thesis
      using a1(1) a2(1) by (auto simp: deg algebra_simps)
  next
    case False
    then have "x \<notin> ?G" using a1(1) by auto
    with False cnt2 [of x] cnt1 [of x] z1 [OF False] show ?thesis
      by (auto simp: deg)
  qed
  show ?thesis unfolding gray_post_def using A B C D E F G by simp
qed


lemma gray_post_hit:
  assumes "cur \<in> grays cm"
  shows "gray_post h (\<lambda>x. if x = cur then 1 else 0) {cur}
           (cm, cnt) (cm, cnt(cur \<mapsto> count_at cnt cur - 1))"
  using assms unfolding gray_post_def
  by (auto simp: in_degree_empty count_at_def)

lemma gray_post_mark:
  assumes ob: "fmlookup h cur = Some ob" and ng: "cur \<notin> grays cm"
    and p: "gray_post h (\<lambda>x. mult h cur x) (edges h `` {cur})
              (cm(cur \<mapsto> gray),
               cnt(cur \<mapsto> (if b then reference_count ob else reference_count ob - 1))) st'"
  shows "gray_post h (\<lambda>x. if x = cur \<and> \<not> b then 1 else 0) {cur} (cm, cnt) st'"
proof -
  define G where "G = grays cm"
  define G0 where "G0 = grays (cm(cur \<mapsto> gray))"
  define G' where "G' = grays (fst st')"
  define r0 where "r0 = (if b then reference_count ob else reference_count ob - 1)"
  let ?E = "edges h"
  have mem: "x \<in> G0 \<longleftrightarrow> x = cur \<or> x \<in> G" for x
    by (simp add: G0_def G_def grays_def)
  from p have a: "G0 \<subseteq> G'" "?E `` {cur} \<subseteq> G'" "G' - G0 \<subseteq> fmdom' h"
      "G' - G0 \<subseteq> ?E\<^sup>* `` (?E `` {cur})"
    and cl: "\<And>y. y \<in> G' - G0 \<Longrightarrow> ?E `` {y} \<subseteq> G'"
    and col: "\<And>x. x \<notin> G' \<Longrightarrow> fst st' x = (cm(cur \<mapsto> gray)) x"
    and cnt: "\<And>x. count_at (snd st') x =
        (if x \<in> G0 then count_at (cnt(cur \<mapsto> r0)) x - of_nat (mult h cur x + in_degree h (G' - G0) x)
         else if x \<in> G' then ref_count h x - of_nat (mult h cur x + in_degree h (G' - G0) x)
         else count_at (cnt(cur \<mapsto> r0)) x)"
    unfolding gray_post_def fst_conv snd_conv G0_def G'_def r0_def by blast+
  have ng': "cur \<notin> G" using ng by (simp add: G_def)
  have cur': "cur \<in> G'" using a(1) mem by blast
  have N: "G' - G = insert cur (G' - G0)" using cur' ng' mem by blast
  have fin: "finite (G' - G0)" using a(3) by (rule finite_subset) simp
  have "cur \<notin> G' - G0" using mem by blast
  with fin have deg: "in_degree h (G' - G) x = mult h cur x + in_degree h (G' - G0) x" for x
    unfolding N by (rule in_degree_insert)
  have rc: "ref_count h cur = reference_count ob" using ob by (simp add: ref_count_def)
  have A: "G \<subseteq> G'" using a(1) mem by blast
  have C: "G' - G \<subseteq> fmdom' h" unfolding N using a(3) ob by (auto simp: fmdom'I)
  have D: "G' - G \<subseteq> ?E\<^sup>* `` {cur}"
  proof
    fix x assume "x \<in> G' - G"
    then consider "x = cur" | "x \<in> G' - G0" unfolding N by blast
    then show "x \<in> ?E\<^sup>* `` {cur}"
    proof cases
      case 1
      then show ?thesis by auto
    next
      case 2
      with a(4) obtain y where "(cur, y) \<in> ?E" "(y, x) \<in> ?E\<^sup>*" by auto
      then have "(cur, x) \<in> ?E\<^sup>*" by (rule converse_rtrancl_into_rtrancl)
      then show ?thesis by auto
    qed
  qed
  have E: "\<forall>y\<in>G' - G. ?E `` {y} \<subseteq> G'"
    unfolding N using a(2) cl by blast
  have F: "\<forall>x. x \<notin> G' \<longrightarrow> fst st' x = cm x"
  proof (intro allI impI)
    fix x assume x: "x \<notin> G'"
    with cur' have "x \<noteq> cur" by blast
    with col [OF x] show "fst st' x = cm x" by simp
  qed
  have G: "count_at (snd st') x =
        (if x \<in> G
         then count_at cnt x - of_nat ((if x = cur \<and> \<not> b then 1 else 0) + in_degree h (G' - G) x)
         else if x \<in> G'
         then ref_count h x - of_nat ((if x = cur \<and> \<not> b then 1 else 0) + in_degree h (G' - G) x)
         else count_at cnt x)" for x
  proof (cases "x = cur")
    case True
    have "cur \<in> G0" using mem by blast
    with cnt [of cur] have "count_at (snd st') cur =
        r0 - of_nat (mult h cur cur + in_degree h (G' - G0) cur)"
      by (simp add: count_at_def)
    then have "count_at (snd st') cur =
        ref_count h cur - of_nat ((if \<not> b then 1 else 0) + in_degree h (G' - G) cur)"
      unfolding deg rc r0_def by (cases b) (simp_all add: algebra_simps)
    with True ng' cur' show ?thesis by simp
  next
    case False
    then have m: "x \<in> G0 \<longleftrightarrow> x \<in> G" using mem by blast
    from cnt [of x] False have "count_at (snd st') x =
        (if x \<in> G then count_at cnt x - of_nat (mult h cur x + in_degree h (G' - G0) x)
         else if x \<in> G' then ref_count h x - of_nat (mult h cur x + in_degree h (G' - G0) x)
         else count_at cnt x)"
      unfolding m by (simp add: count_at_def)
    with False show ?thesis unfolding deg by simp
  qed
  have "cur \<in> grays (fst st')" using cur' by (simp add: G'_def)
  with A C D E F G show ?thesis
    unfolding gray_post_def fst_conv snd_conv G_def G'_def by simp
qed

lemma edges_Image_lookup:
  "fmlookup h a = Some ob \<Longrightarrow> edges h `` {a} = {f. Some f \<in> set (obj_fields ob)}"
  by (auto simp: edges_def fields_of_def)

lemma mark_gray_post:
  "mark_gray h cur b st = Some st' \<Longrightarrow>
     gray_post h (\<lambda>x. if x = cur \<and> (\<not> b \<or> cur \<in> grays (fst st)) then 1 else 0) {cur} st st'"
  "mark_gray_fields h fs st = Some st' \<Longrightarrow>
     gray_post h (\<lambda>x. count_list fs (Some x)) {f. Some f \<in> set fs} st st'"
proof (induction h cur b st and h fs st arbitrary: st' and st'
    rule: mark_gray_mark_gray_fields.induct)
  case (1 h cur b cm cnt)
  show ?case
  proof (cases "color_at cm cur = gray")
    case True
    then have g: "cur \<in> grays cm" by (simp add: color_at_gray)
    from True 1(2) have "st' = (cm, cnt(cur \<mapsto> count_at cnt cur - 1))"
      by (simp add: mark_gray.simps)
    with gray_post_hit [OF g, of h cnt] g show ?thesis by simp
  next
    case False
    then have ng: "cur \<notin> grays cm" by (simp add: color_at_gray)
    from False 1(2) obtain ob where ob: "fmlookup h cur = Some ob"
      and r: "mark_gray_fields h (obj_fields ob)
                (cm(cur \<mapsto> gray),
                 cnt(cur \<mapsto> (if b then reference_count ob else reference_count ob - 1))) = Some st'"
      by (auto simp: mark_gray.simps split: option.splits)
    have m: "(\<lambda>x. count_list (obj_fields ob) (Some x)) = (\<lambda>x. mult h cur x)"
      using ob by (simp add: mult_def fields_of_def)
    from 1(1) [OF False ob r]
    have "gray_post h (\<lambda>x. mult h cur x) (edges h `` {cur})
              (cm(cur \<mapsto> gray),
               cnt(cur \<mapsto> (if b then reference_count ob else reference_count ob - 1))) st'"
      unfolding m edges_Image_lookup [OF ob] .
    from gray_post_mark [OF ob ng this] ng show ?thesis by simp
  qed
next
  case (2 h st)
  then show ?case by (simp add: gray_post_refl)
next
  case (3 h fs st)
  have "{f. Some f \<in> set (None # fs)} = {f. Some f \<in> set fs}" by auto
  with 3 show ?case by simp
next
  case (4 h f fs st)
  from 4(3) obtain st1 where a: "mark_gray h f False st = Some st1"
    and b: "mark_gray_fields h fs st1 = Some st'"
    by (auto split: option.splits)
  from 4(1) [OF a] have p1: "gray_post h (\<lambda>x. if x = f then 1 else 0) {f} st st1" by simp
  note p2 = 4(2) [OF a b]
  have "gray_post h (\<lambda>x. (if x = f then 1 else 0) + count_list fs (Some x))
          ({f} \<union> {g. Some g \<in> set fs}) st st'"
    by (rule gray_post_comp [OF p1 p2]) (simp split: if_splits)
  moreover have "(\<lambda>x. (if x = f then 1 else 0) + count_list fs (Some x))
                 = (\<lambda>x. count_list (Some f # fs) (Some x))" by auto
  moreover have "{f} \<union> {g. Some g \<in> set fs} = {g. Some g \<in> set (Some f # fs)}" by auto
  ultimately show ?case by simp
qed

lemma mark_gray_succeeds:
  "(edges h)\<^sup>* `` {cur} \<subseteq> fmdom' h \<Longrightarrow> mark_gray h cur b st \<noteq> None"
  "(edges h)\<^sup>* `` {f. Some f \<in> set fs} \<subseteq> fmdom' h \<Longrightarrow> mark_gray_fields h fs st \<noteq> None"
proof (induction h cur b st and h fs st rule: mark_gray_mark_gray_fields.induct)
  case (1 h cur b cm cnt)
  then have "cur \<in> fmdom' h" by auto
  then obtain ob where ob: "fmlookup h cur = Some ob"
    by (auto simp: fmdom'_alt_def fmlookup_dom_iff)
  show ?case
  proof (cases "color_at cm cur = gray")
    case True
    then show ?thesis by (simp add: mark_gray.simps)
  next
    case False
    have "(edges h)\<^sup>* `` (edges h `` {cur}) \<subseteq> (edges h)\<^sup>* `` {cur}"
      by (auto intro: converse_rtrancl_into_rtrancl)
    with 1(2) have "(edges h)\<^sup>* `` {f. Some f \<in> set (obj_fields ob)} \<subseteq> fmdom' h"
      unfolding edges_Image_lookup [OF ob] by blast
    from 1(1) [OF False ob this] False ob show ?thesis by (simp add: mark_gray.simps)
  qed
next
  case (2 h st)
  then show ?case by simp
next
  case (3 h fs st)
  have "{f. Some f \<in> set (None # fs)} = {f. Some f \<in> set fs}" by auto
  with 3 show ?case by simp
next
  case (4 h f fs st)
  have "(edges h)\<^sup>* `` {f} \<subseteq> (edges h)\<^sup>* `` {g. Some g \<in> set (Some f # fs)}" by auto
  with 4(3) have "(edges h)\<^sup>* `` {f} \<subseteq> fmdom' h" by blast
  from 4(1) [OF this] obtain st1 where a: "mark_gray h f False st = Some st1" by auto
  have "(edges h)\<^sup>* `` {g. Some g \<in> set fs} \<subseteq> (edges h)\<^sup>* `` {g. Some g \<in> set (Some f # fs)}"
    by auto
  with 4(3) have "(edges h)\<^sup>* `` {g. Some g \<in> set fs} \<subseteq> fmdom' h" by blast
  from 4(2) [OF a this] a show ?case by simp
qed

lemma mark_black_succeeds:
  "(edges h)\<^sup>* `` {cur} \<subseteq> fmdom' h \<Longrightarrow> mark_black h cur st \<noteq> None"
  "(edges h)\<^sup>* `` {f. Some f \<in> set fs} \<subseteq> fmdom' h \<Longrightarrow> mark_black_fields h fs st \<noteq> None"
proof (induction h cur st and h fs st rule: mark_black_mark_black_fields.induct)
  case (1 h cur cm cnt)
  then have "cur \<in> fmdom' h" by auto
  then obtain ob where ob: "fmlookup h cur = Some ob"
    by (auto simp: fmdom'_alt_def fmlookup_dom_iff)
  show ?case
  proof (cases "color_at cm cur = black")
    case True
    then show ?thesis by (simp add: mark_black.simps)
  next
    case False
    have "(edges h)\<^sup>* `` (edges h `` {cur}) \<subseteq> (edges h)\<^sup>* `` {cur}"
      by (auto intro: converse_rtrancl_into_rtrancl)
    with 1(2) have "(edges h)\<^sup>* `` {f. Some f \<in> set (obj_fields ob)} \<subseteq> fmdom' h"
      unfolding edges_Image_lookup [OF ob] by blast
    from 1(1) [OF False ob this] False ob show ?thesis by (simp add: mark_black.simps)
  qed
next
  case (2 h st)
  then show ?case by simp
next
  case (3 h fs st)
  have "{f. Some f \<in> set (None # fs)} = {f. Some f \<in> set fs}" by auto
  with 3 show ?case by simp
next
  case (4 h f fs st)
  have "(edges h)\<^sup>* `` {f} \<subseteq> (edges h)\<^sup>* `` {g. Some g \<in> set (Some f # fs)}" by auto
  with 4(3) have "(edges h)\<^sup>* `` {f} \<subseteq> fmdom' h" by blast
  from 4(1) [OF this] obtain st1 where a: "mark_black h f st = Some st1" by auto
  have "(edges h)\<^sup>* `` {g. Some g \<in> set fs} \<subseteq> (edges h)\<^sup>* `` {g. Some g \<in> set (Some f # fs)}"
    by auto
  with 4(3) have "(edges h)\<^sup>* `` {g. Some g \<in> set fs} \<subseteq> fmdom' h" by blast
  from 4(2) [OF a this] a show ?case by simp
qed

lemma mark_white_succeeds:
  "(edges h)\<^sup>* `` {cur} \<subseteq> fmdom' h \<Longrightarrow> mark_white h cur st \<noteq> None"
  "(edges h)\<^sup>* `` {f. Some f \<in> set fs} \<subseteq> fmdom' h \<Longrightarrow> mark_white_fields h fs st \<noteq> None"
proof (induction h cur st and h fs st rule: mark_white_mark_white_fields.induct)
  case (1 h cur cm cnt)
  then have "cur \<in> fmdom' h" by auto
  then obtain ob where ob: "fmlookup h cur = Some ob"
    by (auto simp: fmdom'_alt_def fmlookup_dom_iff)
  show ?case
  proof (cases "color_at cm cur \<noteq> gray")
    case True
    then show ?thesis by (simp add: mark_white.simps)
  next
    case g: False
    show ?thesis
    proof (cases "count_at cnt cur \<noteq> 0")
      case True
      with g mark_black_succeeds(1) [OF 1(2), of "(cm, count_index cnt cur)"]
      show ?thesis by (simp add: mark_white.simps)
    next
      case False
      have "(edges h)\<^sup>* `` (edges h `` {cur}) \<subseteq> (edges h)\<^sup>* `` {cur}"
        by (auto intro: converse_rtrancl_into_rtrancl)
      with 1(2) have "(edges h)\<^sup>* `` {f. Some f \<in> set (obj_fields ob)} \<subseteq> fmdom' h"
        unfolding edges_Image_lookup [OF ob] by blast
      from 1(1) [OF g False ob this] g False ob show ?thesis by (simp add: mark_white.simps)
    qed
  qed
next
  case (2 h st)
  then show ?case by simp
next
  case (3 h fs st)
  have "{f. Some f \<in> set (None # fs)} = {f. Some f \<in> set fs}" by auto
  with 3 show ?case by simp
next
  case (4 h f fs st)
  have "(edges h)\<^sup>* `` {f} \<subseteq> (edges h)\<^sup>* `` {g. Some g \<in> set (Some f # fs)}" by auto
  with 4(3) have "(edges h)\<^sup>* `` {f} \<subseteq> fmdom' h" by blast
  from 4(1) [OF this] obtain st1 where a: "mark_white h f st = Some st1" by auto
  have "(edges h)\<^sup>* `` {g. Some g \<in> set fs} \<subseteq> (edges h)\<^sup>* `` {g. Some g \<in> set (Some f # fs)}"
    by auto
  with 4(3) have "(edges h)\<^sup>* `` {g. Some g \<in> set fs} \<subseteq> fmdom' h" by blast
  from 4(2) [OF a this] a show ?case by simp
qed


lemma lock_all_ref_count: "lock_all as h = Some h' \<Longrightarrow> ref_count h' x = ref_count h x"
  by (induction as arbitrary: h) (auto split: option.splits simp: lock_ref_count)

lemma in_degree_cong:
  "(\<And>y. fields_of h' y = fields_of h y) \<Longrightarrow> in_degree h' S x = in_degree h S x"
  by (simp add: in_degree_def mult_def)

lemma scan_white_counts:
  assumes "\<forall>x\<in>reach h root. x \<in> fmdom' h \<and> \<not> locked h x"
  shows "\<exists>h1 cm1 visited cyc cm2 cnt2 cm3 cnt3.
      mark_red root root (h, Map.empty, [], False) = Some (h1, cm1, visited, cyc) \<and>
      mark_gray h1 root True (cm1, Map.empty) = Some (cm2, cnt2) \<and>
      mark_white h1 root (cm2, cnt2) = Some (cm3, cnt3) \<and>
      set visited = reach h root \<and> distinct visited \<and> lock_all visited h = Some h1 \<and>
      (cyc \<longleftrightarrow> (\<exists>x\<in>reach h root. Some root \<in> set (fields_of h x))) \<and>
      (\<forall>x\<in>set visited. cm3 x = Some white \<longrightarrow>
          ref_count h x = of_nat (in_degree h (set visited) x))"
proof -
  from mark_red_result [OF assms] obtain h1 cm1 visited cyc where
    r: "mark_red root root (h, Map.empty, [], False) = Some (h1, cm1, visited, cyc)"
    and cm1: "\<And>x. cm1 x = (if x \<in> reach h root then Some red else None)"
    and vis: "distinct visited" "set visited = reach h root"
    and la: "lock_all visited h = Some h1"
    and cyc: "cyc \<longleftrightarrow> (\<exists>x\<in>reach h root. Some root \<in> set (fields_of h x))"
    by blast
  let ?R = "reach h root"
  have f: "\<And>y. fields_of h1 y = fields_of h y" by (rule lock_all_fields_of [OF la])
  have e: "edges h1 = edges h" by (rule edges_cong) (rule f)
  have d: "fmdom' h1 = fmdom' h" using lock_all_dom [OF la] by simp
  have al: "(edges h1)\<^sup>* `` {root} \<subseteq> fmdom' h1"
    unfolding e d using assms by (auto simp: reach_def)
  from mark_gray_succeeds(1) [OF al, of True "(cm1, Map.empty)"] obtain cm2 cnt2 where
    g: "mark_gray h1 root True (cm1, Map.empty) = Some (cm2, cnt2)" by auto
  from mark_white_succeeds(1) [OF al, of "(cm2, cnt2)"] obtain cm3 cnt3 where
    w: "mark_white h1 root (cm2, cnt2) = Some (cm3, cnt3)" by auto
  have g1: "grays cm1 = {}" by (auto simp: grays_def cm1)
  from mark_gray_post(1) [OF g] have
    root: "root \<in> grays cm2"
    and sub: "grays cm2 \<subseteq> (edges h)\<^sup>* `` {root}"
    and cl: "\<And>y. y \<in> grays cm2 \<Longrightarrow> edges h `` {y} \<subseteq> grays cm2"
    and col: "\<And>x. x \<notin> grays cm2 \<Longrightarrow> cm2 x = cm1 x"
    and cnt: "\<And>x. x \<in> grays cm2 \<Longrightarrow>
               count_at cnt2 x = ref_count h1 x - of_nat (in_degree h1 (grays cm2) x)"
    unfolding gray_post_def fst_conv snd_conv g1 e by auto
  have "?R \<subseteq> grays cm2" using root cl by (rule reach_closed_subset)
  with sub have G2: "grays cm2 = ?R" by (auto simp: reach_def)
  have main: "ref_count h x = of_nat (in_degree h (set visited) x)"
    if "x \<in> set visited" "cm3 x = Some white" for x
  proof -
    from that(1) have x: "x \<in> grays cm2" unfolding G2 vis(2) .
    then have "cm2 x = Some gray" by (simp add: grays_def)
    with mark_white_post(1) [OF w] that(2) have "count_at cnt2 x = 0"
      unfolding white_post_def by auto
    with cnt [OF x] have "ref_count h1 x = of_nat (in_degree h1 (grays cm2) x)" by simp
    then show ?thesis
      unfolding G2 vis(2) lock_all_ref_count [OF la] in_degree_cong [of h1 h, OF f] .
  qed
  from r g w vis la cyc main show ?thesis by blast
qed


lemma two_cycle_scan:
  "\<exists>h1 cm1 cm2 cnt2 cm3 cnt3.
     mark_red 0 0 (two_cycle, Map.empty, [], False) = Some (h1, cm1, [0, 1], True) \<and>
     mark_gray h1 0 True (cm1, Map.empty) = Some (cm2, cnt2) \<and>
     mark_white h1 0 (cm2, cnt2) = Some (cm3, cnt3) \<and>
     cm3 0 = Some white \<and> cm3 1 = Some white"
  by (simp add: mark_red.simps mark_gray.simps mark_white.simps two_cycle_def
      example_object_def lock_def fields_of_def color_at_def count_at_def count_index_def
      color_index_def)

section \<open>Claims about the scan of a cyclic root\<close>

text \<open>
  C1.  On a closure whose objects are allocated and unlocked, mark red, mark
  gray from the root as first object and mark white return, and every
  collected object that is white at the end has a reference count equal to the
  number of slots of collected objects that hold it: equal as 64-bit words,
  and equal as numbers when that number of slots is below \<open>2 ^ 64\<close>, as it
  is for any heap that fits the address space.
\<close>

theorem white_count_is_in_degree:
  assumes "\<forall>x\<in>reach h root. x \<in> fmdom' h \<and> \<not> locked h x"
  shows "\<exists>h1 cm1 visited cyc cm2 cnt2 cm3 cnt3.
      mark_red root root (h, Map.empty, [], False) = Some (h1, cm1, visited, cyc) \<and>
      mark_gray h1 root True (cm1, Map.empty) = Some (cm2, cnt2) \<and>
      mark_white h1 root (cm2, cnt2) = Some (cm3, cnt3) \<and>
      (\<forall>x\<in>set visited. cm3 x = Some white \<longrightarrow>
          ref_count h x = of_nat (in_degree h (set visited) x) \<and>
          (in_degree h (set visited) x < 2 ^ 64 \<longrightarrow>
             unat (ref_count h x) = in_degree h (set visited) x))"
proof -
  from scan_white_counts [OF assms] obtain h1 cm1 visited cyc cm2 cnt2 cm3 cnt3 where
    r: "mark_red root root (h, Map.empty, [], False) = Some (h1, cm1, visited, cyc)"
      "mark_gray h1 root True (cm1, Map.empty) = Some (cm2, cnt2)"
      "mark_white h1 root (cm2, cnt2) = Some (cm3, cnt3)"
    and m: "\<And>x. x \<in> set visited \<Longrightarrow> cm3 x = Some white \<Longrightarrow>
               ref_count h x = of_nat (in_degree h (set visited) x)"
    by blast
  have "unat (ref_count h x) = in_degree h (set visited) x"
    if "x \<in> set visited" "cm3 x = Some white" "in_degree h (set visited) x < 2 ^ 64" for x
    using m [OF that(1,2)] that(3) by (simp add: unat_of_nat)
  with r m show ?thesis by blast
qed

theorem white_count_is_in_degree_witness:
  "\<exists>h1 cm1 visited cyc cm2 cnt2 cm3 cnt3.
      mark_red 0 0 (two_cycle, Map.empty, [], False) = Some (h1, cm1, visited, cyc) \<and>
      mark_gray h1 0 True (cm1, Map.empty) = Some (cm2, cnt2) \<and>
      mark_white h1 0 (cm2, cnt2) = Some (cm3, cnt3) \<and>
      cm3 0 = Some white \<and> cm3 1 = Some white \<and>
      (\<forall>x\<in>set visited. cm3 x = Some white \<longrightarrow>
          ref_count two_cycle x = of_nat (in_degree two_cycle (set visited) x) \<and>
          (in_degree two_cycle (set visited) x < 2 ^ 64 \<longrightarrow>
             unat (ref_count two_cycle x) = in_degree two_cycle (set visited) x))"
proof -
  have "\<forall>x\<in>{0, 1}. x \<in> fmdom' two_cycle \<and> \<not> locked two_cycle x"
    by (simp add: two_cycle_def locked_def example_object_def)
  with two_cycle_reach have hyp: "\<forall>x\<in>reach two_cycle 0. x \<in> fmdom' two_cycle \<and> \<not> locked two_cycle x"
    by blast
  from white_count_is_in_degree [OF hyp] obtain h1 cm1 visited cyc cm2 cnt2 cm3 cnt3 where
    r: "mark_red 0 0 (two_cycle, Map.empty, [], False) = Some (h1, cm1, visited, cyc)"
      "mark_gray h1 0 True (cm1, Map.empty) = Some (cm2, cnt2)"
      "mark_white h1 0 (cm2, cnt2) = Some (cm3, cnt3)"
    and m: "\<forall>x\<in>set visited. cm3 x = Some white \<longrightarrow>
          ref_count two_cycle x = of_nat (in_degree two_cycle (set visited) x) \<and>
          (in_degree two_cycle (set visited) x < 2 ^ 64 \<longrightarrow>
             unat (ref_count two_cycle x) = in_degree two_cycle (set visited) x)"
    by blast
  from two_cycle_scan r have "cm3 0 = Some white \<and> cm3 1 = Some white" by auto
  with r m show ?thesis by blast
qed


section \<open>The check of an acyclic root\<close>

text \<open>
  \<^verbatim>\<open>check_ready_to_collect(current_object, acyclic_objects)\<close>.  The set
  \<^verbatim>\<open>acyclic_objects\<close> is kept as a list in insertion order; the trace records
  the load of the flag and the lock taken and released around the loop.  The
  loop stops at the first slot whose check fails; the lock is released on both
  ways out.
\<close>

type_synonym check_state = "heap \<times> addr list \<times> event list"

function check_ready_to_collect :: "addr \<Rightarrow> check_state \<Rightarrow> (bool \<times> check_state) option"
  and check_ready_fields :: "addr option list \<Rightarrow> check_state \<Rightarrow> (bool \<times> check_state) option"
where
  "check_ready_to_collect current_object (h, acyclic_objects, tr) =
     (if current_object \<in> set acyclic_objects then Some (True, (h, acyclic_objects, tr))
      else case fmlookup h current_object of
             None \<Rightarrow> None
           | Some ob \<Rightarrow>
               if \<not> ready_to_release_with_gc ob
               then Some (False, (h, acyclic_objects, tr @ [LoadReady current_object]))
               else
                 (case lock current_object h of
                    None \<Rightarrow> None
                  | Some h1 \<Rightarrow>
                      (case check_ready_fields (obj_fields ob)
                              (h1, acyclic_objects @ [current_object],
                               tr @ [LoadReady current_object, Acquire current_object]) of
                         None \<Rightarrow> None
                       | Some (result, (h2, acyclic_objects2, tr2)) \<Rightarrow>
                           (case unlock current_object h2 of
                              None \<Rightarrow> None
                            | Some h3 \<Rightarrow>
                                Some (result,
                                      (h3, acyclic_objects2, tr2 @ [Release current_object]))))))"
| "check_ready_fields [] st = Some (True, st)"
| "check_ready_fields (None # fs) st = check_ready_fields fs st"
| "check_ready_fields (Some field_object # fs) st =
     (case check_ready_to_collect field_object st of
        None \<Rightarrow> None
      | Some (result, st') \<Rightarrow>
          if \<not> result then Some (False, st') else check_ready_fields fs st')"
  by pat_completeness auto

definition not_checked :: "check_state \<Rightarrow> addr set" where
  "not_checked st = (case st of (h, ac, tr) \<Rightarrow> fmdom' h - set ac)"

lemma finite_not_checked: "finite (not_checked st)"
  by (cases st) (simp add: not_checked_def)

lemma check_ready_not_checked_dom:
  "check_ready_to_collect_check_ready_fields_dom (Inl (cur, st)) \<Longrightarrow>
     check_ready_to_collect cur st = Some (res, st') \<Longrightarrow> not_checked st' \<subseteq> not_checked st"
  "check_ready_to_collect_check_ready_fields_dom (Inr (fs, st)) \<Longrightarrow>
     check_ready_fields fs st = Some (res, st') \<Longrightarrow> not_checked st' \<subseteq> not_checked st"
proof (induction cur st and fs st arbitrary: res st' and res st'
    rule: check_ready_to_collect_check_ready_fields.pinduct)
  case (1 cur h ac tr)
  note psimp = check_ready_to_collect.psimps [OF 1(1)]
  show ?case
  proof (cases "cur \<in> set ac")
    case True
    with 1(3) show ?thesis by (simp add: psimp)
  next
    case False
    with 1(3) obtain ob where ob: "fmlookup h cur = Some ob"
      by (auto simp: psimp split: option.splits)
    show ?thesis
    proof (cases "ready_to_release_with_gc ob")
      case nr: False
      with False ob 1(3) show ?thesis by (auto simp: psimp not_checked_def)
    next
      case True
      with False ob 1(3) obtain h1 res2 h2 ac2 tr2 h3 where
        l: "lock cur h = Some h1"
        and f: "check_ready_fields (obj_fields ob)
                  (h1, ac @ [cur], tr @ [LoadReady cur, Acquire cur]) = Some (res2, (h2, ac2, tr2))"
        and u: "unlock cur h2 = Some h3"
        and s: "st' = (h3, ac2, tr2 @ [Release cur])"
        by (auto simp: psimp split: option.splits prod.splits)
      have nr: "\<not> \<not> ready_to_release_with_gc ob" using True by simp
      from 1(2) [OF False ob nr l f]
      have "not_checked (h2, ac2, tr2) \<subseteq> not_checked (h1, ac @ [cur], tr @ [LoadReady cur, Acquire cur])" .
      with lock_dom [OF l] unlock_dom [OF u] show ?thesis
        unfolding s not_checked_def by auto
    qed
  qed
next
  case (2 st)
  then show ?case by (simp add: check_ready_fields.psimps)
next
  case (3 fs st)
  then show ?case by (simp add: check_ready_fields.psimps)
next
  case (4 f fs st)
  from 4(1,4) obtain r1 st1 where a: "check_ready_to_collect f st = Some (r1, st1)"
    by (auto simp: check_ready_fields.psimps split: option.splits)
  note ih1 = 4(2) [OF a]
  show ?case
  proof (cases r1)
    case False
    with a 4(1,4) have "st' = st1" by (simp add: check_ready_fields.psimps)
    with ih1 show ?thesis by simp
  next
    case True
    with a 4(1,4) have b: "check_ready_fields fs st1 = Some (res, st')"
      by (simp add: check_ready_fields.psimps)
    have "\<not> \<not> r1" using True by simp
    from 4(3) [OF a refl this b] ih1 show ?thesis by blast
  qed
qed

termination check_ready_to_collect
proof (relation "inv_image (finite_psubset <*lex*> less_than)
    (\<lambda>x. case x of Inl (cur, st) \<Rightarrow> (not_checked st, 0)
                 | Inr (fs, st) \<Rightarrow> (not_checked st, Suc (length fs)))", goal_cases)
  case 1
  show ?case by (intro wf_inv_image wf_lex_prod wf_finite_psubset wf_less_than)
next
  case (2 cur h ac tr ob h1)
  then have "cur \<in> fmdom' h" "fmdom' h1 = fmdom' h" using lock_dom [of cur h h1] by auto
  with 2(1) show ?case
    by (auto simp: finite_psubset_def not_checked_def)
next
  case 3
  then show ?case by simp
next
  case 4
  then show ?case by simp
next
  case (5 f fs st x r1 st1)
  from 5(1,2) have "check_ready_to_collect f st = Some (r1, st1)" by simp
  from check_ready_not_checked_dom(1) [OF 5(4) this]
  have "not_checked st1 \<subseteq> not_checked st" .
  then show ?case by (auto simp: finite_psubset_def finite_not_checked)
qed

declare check_ready_to_collect.simps [simp del]


lemma fmupd_same: "fmlookup h a = Some v \<Longrightarrow> fmupd a v h = h"
  by (rule fmap_ext) auto

lemma lock_unlock: "lock a h = Some h1 \<Longrightarrow> unlock a h1 = Some h"
proof -
  assume l: "lock a h = Some h1"
  then obtain ob where ob: "fmlookup h a = Some ob" "\<not> spin_lock_flag ob"
    and h1: "h1 = fmupd a (ob\<lparr>spin_lock_flag := True\<rparr>) h"
    by (auto simp: lock_def split: option.splits if_splits)
  from ob(2) have "ob\<lparr>spin_lock_flag := False\<rparr> = ob" by simp
  then have "fmupd a (ob\<lparr>spin_lock_flag := True, spin_lock_flag := False\<rparr>) h = h"
    using ob(1) by (simp add: fmupd_same)
  moreover have "fmupd a (ob\<lparr>spin_lock_flag := True, spin_lock_flag := False\<rparr>)
                   (fmupd a (ob\<lparr>spin_lock_flag := True\<rparr>) h)
                 = fmupd a (ob\<lparr>spin_lock_flag := True, spin_lock_flag := False\<rparr>) h"
    by (rule fmap_ext) auto
  ultimately show ?thesis by (simp add: unlock_def h1)
qed

text \<open>
  What a check returns: the heap is as before; the list has grown by objects
  reachable from the start set, each with its flag set; when the answer is yes
  the start set is in the list and every added object has all its successors
  in the list; when the answer is no some reachable allocated object has its
  flag clear.
\<close>

definition chk_post :: "addr set \<Rightarrow> bool \<Rightarrow> check_state \<Rightarrow> check_state \<Rightarrow> bool" where
  "chk_post S res st st' =
     (case st of (h, ac, tr) \<Rightarrow> case st' of (h', ac', tr') \<Rightarrow>
        h' = h \<and>
        (\<exists>new. ac' = ac @ new \<and> distinct new \<and> set new \<inter> set ac = {} \<and>
           set new \<subseteq> (edges h)\<^sup>* `` S \<and> (\<forall>x\<in>set new. ready h x) \<and>
           (res \<longrightarrow> S \<subseteq> set ac' \<and> (\<forall>x\<in>set new. edges h `` {x} \<subseteq> set ac')) \<and>
           (\<not> res \<longrightarrow> (\<exists>x\<in>(edges h)\<^sup>* `` S. x \<in> fmdom' h \<and> \<not> ready h x))))"

lemma chk_post_fail:
  assumes "chk_post S1 False st st1" "S1 \<subseteq> S"
  shows "chk_post S False st st1"
proof -
  obtain h ac tr where st: "st = (h, ac, tr)" by (cases st)
  obtain h1 ac1 tr1 where st1: "st1 = (h1, ac1, tr1)" by (cases st1)
  have m: "(edges h)\<^sup>* `` S1 \<subseteq> (edges h)\<^sup>* `` S" using assms(2) by auto
  from assms(1) obtain new where n: "h1 = h" "ac1 = ac @ new" "distinct new" "set new \<inter> set ac = {}"
    "set new \<subseteq> (edges h)\<^sup>* `` S1" "\<forall>x\<in>set new. ready h x"
    "\<exists>x\<in>(edges h)\<^sup>* `` S1. x \<in> fmdom' h \<and> \<not> ready h x"
    unfolding chk_post_def st st1 by auto
  from n(5,7) m have "set new \<subseteq> (edges h)\<^sup>* `` S"
    "\<exists>x\<in>(edges h)\<^sup>* `` S. x \<in> fmdom' h \<and> \<not> ready h x" by blast+
  with n(1-4,6) show ?thesis unfolding chk_post_def st st1 by auto
qed

lemma chk_post_comp:
  assumes p1: "chk_post S1 True st st1" and p2: "chk_post S2 res st1 st2"
  shows "chk_post (S1 \<union> S2) res st st2"
proof -
  obtain h ac tr where st: "st = (h, ac, tr)" by (cases st)
  obtain h1 ac1 tr1 where st1: "st1 = (h1, ac1, tr1)" by (cases st1)
  obtain h2 ac2 tr2 where st2: "st2 = (h2, ac2, tr2)" by (cases st2)
  let ?E = "edges h"
  from p1 obtain n1 where n1: "h1 = h" "ac1 = ac @ n1" "distinct n1" "set n1 \<inter> set ac = {}"
    "set n1 \<subseteq> ?E\<^sup>* `` S1" "\<forall>x\<in>set n1. ready h x"
    "S1 \<subseteq> set ac1" "\<forall>x\<in>set n1. ?E `` {x} \<subseteq> set ac1"
    unfolding chk_post_def st st1 by auto
  from p2 have "\<exists>new. h2 = h \<and> ac2 = ac1 @ new \<and> distinct new \<and> set new \<inter> set ac1 = {} \<and>
    set new \<subseteq> ?E\<^sup>* `` S2 \<and> (\<forall>x\<in>set new. ready h x) \<and>
    (res \<longrightarrow> S2 \<subseteq> set ac2 \<and> (\<forall>x\<in>set new. ?E `` {x} \<subseteq> set ac2)) \<and>
    (\<not> res \<longrightarrow> (\<exists>x\<in>?E\<^sup>* `` S2. x \<in> fmdom' h \<and> \<not> ready h x))"
    unfolding chk_post_def st1 st2 n1(1) by simp
  then obtain n2 where n2: "h2 = h" "ac2 = ac1 @ n2" "distinct n2" "set n2 \<inter> set ac1 = {}"
    "set n2 \<subseteq> ?E\<^sup>* `` S2" "\<forall>x\<in>set n2. ready h x"
    "res \<longrightarrow> S2 \<subseteq> set ac2 \<and> (\<forall>x\<in>set n2. ?E `` {x} \<subseteq> set ac2)"
    "\<not> res \<longrightarrow> (\<exists>x\<in>?E\<^sup>* `` S2. x \<in> fmdom' h \<and> \<not> ready h x)"
    by blast
  have a: "ac2 = ac @ (n1 @ n2)" using n1(2) n2(2) by simp
  have b: "distinct (n1 @ n2)" using n1(2,3) n2(3,4) by auto
  have c: "set (n1 @ n2) \<inter> set ac = {}" using n1(2,4) n2(4) by auto
  have d: "set (n1 @ n2) \<subseteq> ?E\<^sup>* `` (S1 \<union> S2)" using n1(5) n2(5) by auto
  have e: "\<forall>x\<in>set (n1 @ n2). ready h x" using n1(6) n2(6) by auto
  have f: "res \<longrightarrow> S1 \<union> S2 \<subseteq> set ac2 \<and> (\<forall>x\<in>set (n1 @ n2). ?E `` {x} \<subseteq> set ac2)"
    using n1(7,8) n2(2,7) by auto
  have g: "\<not> res \<longrightarrow> (\<exists>x\<in>?E\<^sup>* `` (S1 \<union> S2). x \<in> fmdom' h \<and> \<not> ready h x)"
    using n2(8) by auto
  have "\<exists>new. ac2 = ac @ new \<and> distinct new \<and> set new \<inter> set ac = {} \<and>
           set new \<subseteq> ?E\<^sup>* `` (S1 \<union> S2) \<and> (\<forall>x\<in>set new. ready h x) \<and>
           (res \<longrightarrow> S1 \<union> S2 \<subseteq> set ac2 \<and> (\<forall>x\<in>set new. ?E `` {x} \<subseteq> set ac2)) \<and>
           (\<not> res \<longrightarrow> (\<exists>x\<in>?E\<^sup>* `` (S1 \<union> S2). x \<in> fmdom' h \<and> \<not> ready h x))"
    by (rule exI [of _ "n1 @ n2"], intro conjI) (rule a b c d e f g)+
  with n2(1) show ?thesis unfolding chk_post_def st st2 by simp
qed

lemma chk_post_mark:
  assumes ob: "fmlookup h cur = Some ob" and rd: "ready_to_release_with_gc ob"
    and nin: "cur \<notin> set ac" and l: "lock cur h = Some h1"
    and p: "chk_post {f. Some f \<in> set (obj_fields ob)} res (h1, ac @ [cur], tr1) (h2, ac2, tr2)"
    and u: "unlock cur h2 = Some h3"
  shows "chk_post {cur} res (h, ac, tr) (h3, ac2, tr3)"
proof -
  let ?E = "edges h"
  let ?F = "{f. Some f \<in> set (obj_fields ob)}"
  have e1: "edges h1 = edges h" by (rule edges_cong) (rule lock_fields_of [OF l])
  have r1: "ready h1 x = ready h x" for x
    using l by (auto simp: lock_def ready_def split: option.splits if_splits)
  have d1: "fmdom' h1 = fmdom' h" using lock_dom [OF l] by simp
  have F: "?F = ?E `` {cur}" using ob by (simp add: edges_Image_lookup)
  have sub: "?E\<^sup>* `` ?F \<subseteq> ?E\<^sup>* `` {cur}"
    unfolding F by (auto intro: converse_rtrancl_into_rtrancl)
  from p have "\<exists>new. h2 = h1 \<and> ac2 = (ac @ [cur]) @ new \<and> distinct new \<and>
    set new \<inter> set (ac @ [cur]) = {} \<and> set new \<subseteq> ?E\<^sup>* `` ?F \<and> (\<forall>x\<in>set new. ready h x) \<and>
    (res \<longrightarrow> ?F \<subseteq> set ac2 \<and> (\<forall>x\<in>set new. ?E `` {x} \<subseteq> set ac2)) \<and>
    (\<not> res \<longrightarrow> (\<exists>x\<in>?E\<^sup>* `` ?F. x \<in> fmdom' h \<and> \<not> ready h x))"
    unfolding chk_post_def prod.case e1 r1 d1 by blast
  then obtain new where n: "h2 = h1" "ac2 = (ac @ [cur]) @ new" "distinct new"
    "set new \<inter> set (ac @ [cur]) = {}" "set new \<subseteq> ?E\<^sup>* `` ?F" "\<forall>x\<in>set new. ready h x"
    "res \<longrightarrow> ?F \<subseteq> set ac2 \<and> (\<forall>x\<in>set new. ?E `` {x} \<subseteq> set ac2)"
    "\<not> res \<longrightarrow> (\<exists>x\<in>?E\<^sup>* `` ?F. x \<in> fmdom' h \<and> \<not> ready h x)"
    by blast
  have h3: "h3 = h" using lock_unlock [OF l] u n(1) by simp
  have rc: "ready h cur" using ob rd by (simp add: ready_def)
  have a: "ac2 = ac @ (cur # new)" using n(2) by simp
  have b: "distinct (cur # new)" using n(3,4) by auto
  have c: "set (cur # new) \<inter> set ac = {}" using n(4) nin by auto
  have d: "set (cur # new) \<subseteq> ?E\<^sup>* `` {cur}" using n(5) sub by auto
  have e: "\<forall>x\<in>set (cur # new). ready h x" using n(6) rc by auto
  have f: "res \<longrightarrow> {cur} \<subseteq> set ac2 \<and> (\<forall>x\<in>set (cur # new). ?E `` {x} \<subseteq> set ac2)"
    using n(7) a F by auto
  have g: "\<not> res \<longrightarrow> (\<exists>x\<in>?E\<^sup>* `` {cur}. x \<in> fmdom' h \<and> \<not> ready h x)"
    using n(8) sub by blast
  have "\<exists>new. ac2 = ac @ new \<and> distinct new \<and> set new \<inter> set ac = {} \<and>
           set new \<subseteq> ?E\<^sup>* `` {cur} \<and> (\<forall>x\<in>set new. ready h x) \<and>
           (res \<longrightarrow> {cur} \<subseteq> set ac2 \<and> (\<forall>x\<in>set new. ?E `` {x} \<subseteq> set ac2)) \<and>
           (\<not> res \<longrightarrow> (\<exists>x\<in>?E\<^sup>* `` {cur}. x \<in> fmdom' h \<and> \<not> ready h x))"
    by (rule exI [of _ "cur # new"], intro conjI) (rule a b c d e f g)+
  with h3 show ?thesis unfolding chk_post_def by simp
qed

lemma check_ready_post:
  "check_ready_to_collect cur st = Some (res, st') \<Longrightarrow> chk_post {cur} res st st'"
  "check_ready_fields fs st = Some (res, st') \<Longrightarrow> chk_post {f. Some f \<in> set fs} res st st'"
proof (induction cur st and fs st arbitrary: res st' and res st'
    rule: check_ready_to_collect_check_ready_fields.induct)
  case (1 cur h ac tr)
  note simp = check_ready_to_collect.simps [of cur h ac tr]
  show ?case
  proof (cases "cur \<in> set ac")
    case True
    with 1(2) have "res = True" "st' = (h, ac, tr)" by (simp_all add: simp)
    with True show ?thesis by (simp add: chk_post_def)
  next
    case False
    with 1(2) obtain ob where ob: "fmlookup h cur = Some ob"
      by (auto simp: simp split: option.splits)
    show ?thesis
    proof (cases "ready_to_release_with_gc ob")
      case nr: False
      with False ob 1(2) have "res = False" "st' = (h, ac, tr @ [LoadReady cur])"
        by (simp_all add: simp)
      moreover have "cur \<in> fmdom' h \<and> \<not> ready h cur" using ob nr by (simp add: ready_def fmdom'I)
      ultimately show ?thesis unfolding chk_post_def by auto
    next
      case True
      with False ob 1(2) obtain h1 h2 ac2 tr2 h3 where
        l: "lock cur h = Some h1"
        and f: "check_ready_fields (obj_fields ob)
                  (h1, ac @ [cur], tr @ [LoadReady cur, Acquire cur]) = Some (res, (h2, ac2, tr2))"
        and u: "unlock cur h2 = Some h3"
        and s: "st' = (h3, ac2, tr2 @ [Release cur])"
        by (auto simp: simp split: option.splits prod.splits)
      have nr: "\<not> \<not> ready_to_release_with_gc ob" using True by simp
      from 1(1) [OF False ob nr l f]
      have "chk_post {f. Some f \<in> set (obj_fields ob)} res
              (h1, ac @ [cur], tr @ [LoadReady cur, Acquire cur]) (h2, ac2, tr2)" .
      from chk_post_mark [OF ob True False l this u] show ?thesis unfolding s .
    qed
  qed
next
  case (2 st)
  then show ?case by (cases st) (auto simp: chk_post_def)
next
  case (3 fs st)
  have "{f. Some f \<in> set (None # fs)} = {f. Some f \<in> set fs}" by auto
  with 3 show ?case by simp
next
  case (4 f fs st)
  from 4(3) obtain r1 st1 where a: "check_ready_to_collect f st = Some (r1, st1)"
    by (auto split: option.splits)
  note p1 = 4(1) [OF a]
  have S: "{g. Some g \<in> set (Some f # fs)} = {f} \<union> {g. Some g \<in> set fs}" by auto
  show ?case
  proof (cases r1)
    case False
    with a 4(3) have "res = False" "st' = st1" by simp_all
    with p1 False show ?thesis unfolding S by (auto intro: chk_post_fail)
  next
    case True
    with a 4(3) have b: "check_ready_fields fs st1 = Some (res, st')" by simp
    have "\<not> \<not> r1" using True by simp
    from 4(2) [OF a refl this b]
    have p2: "chk_post {g. Some g \<in> set fs} res st1 st'" .
    from p1 True have p1': "chk_post {f} True st st1" by simp
    show ?thesis unfolding S by (rule chk_post_comp [OF p1' p2])
  qed
qed


text \<open>When the check cannot block: what it still has to visit is allocated and unlocked.\<close>

definition chk_ok :: "addr set \<Rightarrow> check_state \<Rightarrow> bool" where
  "chk_ok S st =
     (case st of (h, ac, tr) \<Rightarrow>
        \<forall>x\<in>(edges h)\<^sup>* `` S. x \<notin> set ac \<longrightarrow> x \<in> fmdom' h \<and> \<not> locked h x)"

lemma check_ready_succeeds:
  "chk_ok {cur} st \<Longrightarrow> check_ready_to_collect cur st \<noteq> None"
  "chk_ok {f. Some f \<in> set fs} st \<Longrightarrow> check_ready_fields fs st \<noteq> None"
proof (induction cur st and fs st rule: check_ready_to_collect_check_ready_fields.induct)
  case (1 cur h ac tr)
  let ?E = "edges h"
  note simp = check_ready_to_collect.simps [of cur h ac tr]
  from 1(2) have ok: "\<And>x. x \<in> ?E\<^sup>* `` {cur} \<Longrightarrow> x \<notin> set ac \<Longrightarrow> x \<in> fmdom' h \<and> \<not> locked h x"
    unfolding chk_ok_def by auto
  show ?case
  proof (cases "cur \<in> set ac")
    case True
    then show ?thesis by (simp add: simp)
  next
    case False
    then have c: "cur \<in> fmdom' h" "\<not> locked h cur" using ok [of cur] by auto
    then obtain ob where ob: "fmlookup h cur = Some ob"
      by (auto simp: fmdom'_alt_def fmlookup_dom_iff)
    show ?thesis
    proof (cases "ready_to_release_with_gc ob")
      case nr: False
      with False ob show ?thesis by (simp add: simp)
    next
      case True
      from c obtain h1 where l: "lock cur h = Some h1" using lock_succeeds by blast
      have e: "edges h1 = edges h" by (rule edges_cong) (rule lock_fields_of [OF l])
      have "chk_ok {f. Some f \<in> set (obj_fields ob)}
              (h1, ac @ [cur], tr @ [LoadReady cur, Acquire cur])"
        unfolding chk_ok_def prod.case e
      proof (intro ballI impI)
        fix x assume x: "x \<in> ?E\<^sup>* `` {f. Some f \<in> set (obj_fields ob)}"
          and nx: "x \<notin> set (ac @ [cur])"
        from x obtain f where "(cur, f) \<in> ?E" "(f, x) \<in> ?E\<^sup>*"
          using edges_Image_lookup [OF ob] by auto
        then have "(cur, x) \<in> ?E\<^sup>*" by (rule converse_rtrancl_into_rtrancl)
        moreover from nx have "x \<noteq> cur" "x \<notin> set ac" by auto
        ultimately have "x \<in> fmdom' h \<and> \<not> locked h x" using ok [of x] by auto
        with lock_dom [OF l] lock_locked [OF l, of x] \<open>x \<noteq> cur\<close>
        show "x \<in> fmdom' h1 \<and> \<not> locked h1 x" by auto
      qed
      moreover have nr: "\<not> \<not> ready_to_release_with_gc ob" using True by simp
      ultimately have "check_ready_fields (obj_fields ob)
              (h1, ac @ [cur], tr @ [LoadReady cur, Acquire cur]) \<noteq> None"
        using 1(1) [OF False ob nr l] by simp
      then obtain res h2 ac2 tr2 where
        f: "check_ready_fields (obj_fields ob)
              (h1, ac @ [cur], tr @ [LoadReady cur, Acquire cur]) = Some (res, (h2, ac2, tr2))"
        by (cases "check_ready_fields (obj_fields ob)
              (h1, ac @ [cur], tr @ [LoadReady cur, Acquire cur])") auto
      from check_ready_post(2) [OF f] have "h2 = h1" unfolding chk_post_def by simp
      with lock_unlock [OF l] have "unlock cur h2 = Some h" by simp
      with False ob True l f show ?thesis by (simp add: simp)
    qed
  qed
next
  case (2 st)
  then show ?case by simp
next
  case (3 fs st)
  have "{f. Some f \<in> set (None # fs)} = {f. Some f \<in> set fs}" by auto
  with 3 show ?case by simp
next
  case (4 f fs st)
  obtain h ac tr where st: "st = (h, ac, tr)" by (cases st)
  let ?E = "edges h"
  from 4(3) have ok: "\<And>x g. Some g \<in> set (Some f # fs) \<Longrightarrow> (g, x) \<in> ?E\<^sup>* \<Longrightarrow> x \<notin> set ac
                        \<Longrightarrow> x \<in> fmdom' h \<and> \<not> locked h x"
    unfolding chk_ok_def st by auto
  have "chk_ok {f} st" unfolding chk_ok_def st using ok [of f] by auto
  from 4(1) [OF this] obtain r1 st1 where a: "check_ready_to_collect f st = Some (r1, st1)"
    by (cases "check_ready_to_collect f st") auto
  show ?case
  proof (cases r1)
    case False
    with a show ?thesis by simp
  next
    case True
    obtain h1 ac1 tr1 where st1: "st1 = (h1, ac1, tr1)" by (cases st1)
    from check_ready_post(1) [OF a] have h1: "h1 = h" and sub: "set ac \<subseteq> set ac1"
      unfolding chk_post_def st st1 by auto
    have "chk_ok {g. Some g \<in> set fs} st1"
      unfolding chk_ok_def st1 h1 using ok sub by auto
    moreover have "\<not> \<not> r1" using True by simp
    ultimately have "check_ready_fields fs st1 \<noteq> None" using 4(2) [OF a refl] by simp
    with a True show ?thesis by simp
  qed
qed

text \<open>
  The locks held along the trace of a check, as a stack, and the property
  that every load of a flag happens while the lock of the loaded object is not
  held.
\<close>

fun stack_after :: "event list \<Rightarrow> addr list \<Rightarrow> addr list" where
  "stack_after [] stk = stk"
| "stack_after (Acquire a # es) stk = stack_after es (a # stk)"
| "stack_after (Release a # es) stk = stack_after es (tl stk)"
| "stack_after (FetchSub a # es) stk = stack_after es stk"
| "stack_after (Free a # es) stk = stack_after es stk"
| "stack_after (LoadReady a # es) stk = stack_after es stk"

fun loads_unlocked :: "event list \<Rightarrow> addr list \<Rightarrow> bool" where
  "loads_unlocked [] stk = True"
| "loads_unlocked (Acquire a # es) stk = loads_unlocked es (a # stk)"
| "loads_unlocked (Release a # es) stk = loads_unlocked es (tl stk)"
| "loads_unlocked (FetchSub a # es) stk = loads_unlocked es stk"
| "loads_unlocked (Free a # es) stk = loads_unlocked es stk"
| "loads_unlocked (LoadReady a # es) stk = (a \<notin> set stk \<and> loads_unlocked es stk)"


lemma stack_after_append: "stack_after (xs @ ys) stk = stack_after ys (stack_after xs stk)"
  by (induction xs stk rule: stack_after.induct) auto

lemma loads_unlocked_append:
  "loads_unlocked (xs @ ys) stk \<longleftrightarrow>
     loads_unlocked xs stk \<and> loads_unlocked ys (stack_after xs stk)"
  by (induction xs stk rule: stack_after.induct) auto

definition chk_trace :: "check_state \<Rightarrow> check_state \<Rightarrow> bool" where
  "chk_trace st st' =
     (case st of (h, ac, tr) \<Rightarrow> case st' of (h', ac', tr') \<Rightarrow>
        set ac \<subseteq> set ac' \<and>
        (\<exists>t. tr' = tr @ t \<and>
           (\<forall>stk. set stk \<subseteq> set ac \<longrightarrow> loads_unlocked t stk \<and> stack_after t stk = stk)))"

lemma chk_trace_refl: "chk_trace st st"
  by (cases st) (simp add: chk_trace_def)

lemma chk_trace_trans:
  assumes "chk_trace st st1" "chk_trace st1 st2"
  shows "chk_trace st st2"
proof -
  obtain h ac tr where st: "st = (h, ac, tr)" by (cases st)
  obtain h1 ac1 tr1 where st1: "st1 = (h1, ac1, tr1)" by (cases st1)
  obtain h2 ac2 tr2 where st2: "st2 = (h2, ac2, tr2)" by (cases st2)
  from assms(1) obtain t1 where t1: "set ac \<subseteq> set ac1" "tr1 = tr @ t1"
    "\<And>stk. set stk \<subseteq> set ac \<Longrightarrow> loads_unlocked t1 stk \<and> stack_after t1 stk = stk"
    unfolding chk_trace_def st st1 by auto
  from assms(2) obtain t2 where t2: "set ac1 \<subseteq> set ac2" "tr2 = tr1 @ t2"
    "\<And>stk. set stk \<subseteq> set ac1 \<Longrightarrow> loads_unlocked t2 stk \<and> stack_after t2 stk = stk"
    unfolding chk_trace_def st1 st2 by auto
  have "loads_unlocked (t1 @ t2) stk \<and> stack_after (t1 @ t2) stk = stk"
    if "set stk \<subseteq> set ac" for stk
    using t1(3) [OF that] t2(3) [of stk] that t1(1)
    by (auto simp: loads_unlocked_append stack_after_append)
  moreover have "tr2 = tr @ (t1 @ t2)" using t1(2) t2(2) by simp
  moreover have "set ac \<subseteq> set ac2" using t1(1) t2(1) by auto
  ultimately show ?thesis unfolding chk_trace_def st st2 by blast
qed

lemma check_ready_trace:
  "check_ready_to_collect cur st = Some (res, st') \<Longrightarrow> chk_trace st st'"
  "check_ready_fields fs st = Some (res, st') \<Longrightarrow> chk_trace st st'"
proof (induction cur st and fs st arbitrary: res st' and res st'
    rule: check_ready_to_collect_check_ready_fields.induct)
  case (1 cur h ac tr)
  note simp = check_ready_to_collect.simps [of cur h ac tr]
  show ?case
  proof (cases "cur \<in> set ac")
    case True
    with 1(2) have "st' = (h, ac, tr)" by (simp_all add: simp)
    then show ?thesis by (simp add: chk_trace_refl)
  next
    case False
    with 1(2) obtain ob where ob: "fmlookup h cur = Some ob"
      by (auto simp: simp split: option.splits)
    show ?thesis
    proof (cases "ready_to_release_with_gc ob")
      case nr: False
      with False ob 1(2) have "st' = (h, ac, tr @ [LoadReady cur])"
        by (simp_all add: simp)
      with False show ?thesis unfolding chk_trace_def by auto
    next
      case True
      with False ob 1(2) obtain h1 h2 ac2 tr2 h3 where
        l: "lock cur h = Some h1"
        and f: "check_ready_fields (obj_fields ob)
                  (h1, ac @ [cur], tr @ [LoadReady cur, Acquire cur]) = Some (res, (h2, ac2, tr2))"
        and u: "unlock cur h2 = Some h3"
        and s: "st' = (h3, ac2, tr2 @ [Release cur])"
        by (auto simp: simp split: option.splits prod.splits)
      have nr: "\<not> \<not> ready_to_release_with_gc ob" using True by simp
      from 1(1) [OF False ob nr l f] obtain t where
        t: "set (ac @ [cur]) \<subseteq> set ac2" "tr2 = (tr @ [LoadReady cur, Acquire cur]) @ t"
        "\<And>stk. set stk \<subseteq> set (ac @ [cur]) \<Longrightarrow> loads_unlocked t stk \<and> stack_after t stk = stk"
        unfolding chk_trace_def by auto
      have "loads_unlocked ([LoadReady cur, Acquire cur] @ t @ [Release cur]) stk \<and>
            stack_after ([LoadReady cur, Acquire cur] @ t @ [Release cur]) stk = stk"
        if "set stk \<subseteq> set ac" for stk
      proof -
        from that have "set (cur # stk) \<subseteq> set (ac @ [cur])" by auto
        from t(3) [OF this] that False show ?thesis
          by (auto simp: loads_unlocked_append stack_after_append)
      qed
      moreover have "tr2 @ [Release cur] = tr @ ([LoadReady cur, Acquire cur] @ t @ [Release cur])"
        using t(2) by simp
      moreover have "set ac \<subseteq> set ac2" using t(1) by auto
      ultimately show ?thesis unfolding chk_trace_def s by blast
    qed
  qed
next
  case (2 st)
  then show ?case by (simp add: chk_trace_refl)
next
  case (3 fs st)
  then show ?case by simp
next
  case (4 f fs st)
  from 4(3) obtain r1 st1 where a: "check_ready_to_collect f st = Some (r1, st1)"
    by (auto split: option.splits)
  note p1 = 4(1) [OF a]
  show ?case
  proof (cases r1)
    case False
    with a 4(3) have "st' = st1" by simp
    with p1 show ?thesis by simp
  next
    case True
    with a 4(3) have b: "check_ready_fields fs st1 = Some (res, st')" by simp
    have "\<not> \<not> r1" using True by simp
    from p1 4(2) [OF a refl this b] show ?thesis by (rule chk_trace_trans)
  qed
qed

lemma check_ready_result:
  assumes "\<forall>x\<in>reach h root. x \<in> fmdom' h \<and> \<not> locked h x"
  shows "\<exists>ac t. check_ready_to_collect root (h, [], tr)
                  = Some (\<forall>x\<in>reach h root. ready h x, (h, ac, tr @ t)) \<and>
               distinct ac \<and> set ac \<subseteq> reach h root \<and>
               ((\<forall>x\<in>reach h root. ready h x) \<longrightarrow> set ac = reach h root) \<and>
               loads_unlocked t []"
proof -
  let ?E = "edges h"
  have "chk_ok {root} (h, [], tr)" using assms unfolding chk_ok_def reach_def by auto
  from check_ready_succeeds(1) [OF this] obtain res st' where
    r: "check_ready_to_collect root (h, [], tr) = Some (res, st')"
    by (cases "check_ready_to_collect root (h, [], tr)") auto
  obtain h' ac tr' where st': "st' = (h', ac, tr')" by (cases st')
  from check_ready_post(1) [OF r] have h': "h' = h" and d: "distinct ac"
    and sub: "set ac \<subseteq> ?E\<^sup>* `` {root}" and rd: "\<forall>x\<in>set ac. ready h x"
    and yes: "res \<Longrightarrow> root \<in> set ac \<and> (\<forall>x\<in>set ac. ?E `` {x} \<subseteq> set ac)"
    and no: "\<not> res \<Longrightarrow> \<exists>x\<in>?E\<^sup>* `` {root}. x \<in> fmdom' h \<and> \<not> ready h x"
    unfolding chk_post_def st' by auto
  from check_ready_trace(1) [OF r] obtain t where t: "tr' = tr @ t" "loads_unlocked t []"
    unfolding chk_trace_def st' by auto
  have full: "set ac = reach h root" if res
  proof -
    from yes [OF that] have "reach h root \<subseteq> set ac" by (intro reach_closed_subset) auto
    with sub show ?thesis by (auto simp: reach_def)
  qed
  have res: "res \<longleftrightarrow> (\<forall>x\<in>reach h root. ready h x)"
  proof
    assume res
    with full rd show "\<forall>x\<in>reach h root. ready h x" by auto
  next
    assume a: "\<forall>x\<in>reach h root. ready h x"
    show res
    proof (rule ccontr)
      assume "\<not> res"
      from no [OF this] a show False by (auto simp: reach_def)
    qed
  qed
  from r d sub full t show ?thesis unfolding st' h' res reach_def by auto
qed


section \<open>The collector\<close>

text \<open>
  \<^verbatim>\<open>gc_collect\<close>, stage by stage.  The sets \<^verbatim>\<open>roots\<close> and
  \<^verbatim>\<open>release_objects\<close> are lists without duplicates, iterated in list order.
  The destructor of the local \<^verbatim>\<open>DynamicRC rc(field_object)\<close>, which performs
  the compensating decrement, is not part of the collector's source: it is the
  parameter \<open>dtor\<close>, a function on the global state.
\<close>

definition swap_roots :: "runtime \<Rightarrow> (addr list \<times> runtime) option" where
  "swap_roots s =
     (if list_lock s then None
      else Some (suspected_object_set s, s\<lparr>suspected_object_set := [], list_lock := False\<rparr>))"

fun unlock_all :: "addr list \<Rightarrow> heap \<Rightarrow> heap option" where
  "unlock_all [] h = Some h"
| "unlock_all (a # as) h = (case unlock a h of None \<Rightarrow> None | Some h' \<Rightarrow> unlock_all as h')"

text \<open>The loop that marks the white objects as releasable and collects them.\<close>

fun mark_released :: "color_map \<Rightarrow> addr list \<Rightarrow> heap \<times> addr list \<Rightarrow> (heap \<times> addr list) option" where
  "mark_released color_map [] st = Some st"
| "mark_released color_map (object # collect_objects) (h, release_objects) =
     (if color_at color_map object = white
      then (case store_ready object h of
              None \<Rightarrow> None
            | Some h' \<Rightarrow>
                mark_released color_map collect_objects (h', List.insert object release_objects))
      else mark_released color_map collect_objects (h, release_objects))"

text \<open>The body of the loop over the roots.\<close>

definition analyse_root :: "addr \<Rightarrow> heap \<times> addr list \<Rightarrow> (heap \<times> addr list) option" where
  "analyse_root root st =
     (case st of (h, release_objects) \<Rightarrow>
      case mark_red root root (h, Map.empty, [], False) of
        None \<Rightarrow> None
      | Some (h1, color_map, collect_objects, is_cyclic_root) \<Rightarrow>
          if is_cyclic_root then
            (case mark_gray h1 root True (color_map, Map.empty) of
               None \<Rightarrow> None
             | Some st2 \<Rightarrow>
                 (case mark_white h1 root st2 of
                    None \<Rightarrow> None
                  | Some (color_map3, count_map3) \<Rightarrow>
                      (case mark_released color_map3 collect_objects (h1, release_objects) of
                         None \<Rightarrow> None
                       | Some (h2, release_objects2) \<Rightarrow>
                           (case unlock_all collect_objects h2 of
                              None \<Rightarrow> None
                            | Some h3 \<Rightarrow> Some (h3, release_objects2)))))
          else
            (case unlock_all collect_objects h1 of
               None \<Rightarrow> None
             | Some h2 \<Rightarrow>
                 (case check_ready_to_collect root (h2, [], []) of
                    None \<Rightarrow> None
                  | Some (ready_to_release, (h3, acyclic_objects, tr)) \<Rightarrow>
                      Some (h3, if ready_to_release
                                then fold List.insert acyclic_objects release_objects
                                else release_objects))))"

fun analyse_roots :: "addr list \<Rightarrow> heap \<times> addr list \<Rightarrow> (heap \<times> addr list) option" where
  "analyse_roots [] st = Some st"
| "analyse_roots (root # roots) st =
     (case analyse_root root st of None \<Rightarrow> None | Some st' \<Rightarrow> analyse_roots roots st')"

text \<open>
  The loop over the slots of a released object: a slot whose object is not
  marked \<^verbatim>\<open>ready_to_release_with_gc\<close> gets the compensating decrement.
\<close>

function release_fields ::
  "(addr \<Rightarrow> runtime \<Rightarrow> runtime option) \<Rightarrow> addr \<Rightarrow> nat \<Rightarrow> nat \<Rightarrow> runtime \<times> event list
     \<Rightarrow> (runtime \<times> event list) option" where
  "release_fields dtor object i n (s, tr) =
     (if i < n then
        (case load_field object i (objects s) of
           None \<Rightarrow> None
         | Some None \<Rightarrow> release_fields dtor object (Suc i) n (s, tr)
         | Some (Some field_object) \<Rightarrow>
             (case fmlookup (objects s) field_object of
                None \<Rightarrow> None
              | Some fo \<Rightarrow>
                  if \<not> ready_to_release_with_gc fo then
                    (case dtor field_object s of
                       None \<Rightarrow> None
                     | Some s' \<Rightarrow>
                         release_fields dtor object (Suc i) n (s', tr @ [FetchSub field_object]))
                  else release_fields dtor object (Suc i) n (s, tr)))
      else Some (s, tr))"
  by pat_completeness auto
termination
  by (relation "measure (\<lambda>(dtor, object, i, n, st). n - i)") auto

declare release_fields.simps [simp del]

type_synonym pass_state = "runtime \<times> addr list \<times> event list"

definition release_object ::
  "(addr \<Rightarrow> runtime \<Rightarrow> runtime option) \<Rightarrow> addr \<Rightarrow> pass_state \<Rightarrow> pass_state option" where
  "release_object dtor object st =
     (case st of (s, roots, tr) \<Rightarrow>
      case fmlookup (objects s) object of
        None \<Rightarrow> None
      | Some ob \<Rightarrow>
          (case (if is_cyclic_type ob \<and> buffered ob
                 then (if list_lock s then None
                       else Some (s\<lparr>suspected_object_set :=
                                      removeAll object (suspected_object_set s),
                                    list_lock := False\<rparr>))
                 else Some s) of
             None \<Rightarrow> None
           | Some s1 \<Rightarrow>
               (case release_fields dtor object 0 (length (obj_fields ob)) (s1, tr) of
                  None \<Rightarrow> None
                | Some (s2, tr2) \<Rightarrow> Some (s2, removeAll object roots, tr2))))"

fun release_all ::
  "(addr \<Rightarrow> runtime \<Rightarrow> runtime option) \<Rightarrow> addr list \<Rightarrow> pass_state \<Rightarrow> pass_state option" where
  "release_all dtor [] st = Some st"
| "release_all dtor (object # release_objects) st =
     (case release_object dtor object st of
        None \<Rightarrow> None
      | Some st' \<Rightarrow> release_all dtor release_objects st')"

text \<open>\<^verbatim>\<open>free(object)\<close> for each released object; freeing what is not allocated is undefined.\<close>

fun free_all :: "addr list \<Rightarrow> heap \<times> event list \<Rightarrow> (heap \<times> event list) option" where
  "free_all [] st = Some st"
| "free_all (object # release_objects) (h, tr) =
     (if fmlookup h object = None then None
      else free_all release_objects (fmdrop object h, tr @ [Free object]))"

fun reenroll :: "addr list \<Rightarrow> runtime \<Rightarrow> runtime option" where
  "reenroll [] s = Some s"
| "reenroll (root # roots) s =
     (case add_suspected_object root s of None \<Rightarrow> None | Some s' \<Rightarrow> reenroll roots s')"

definition gc_collect ::
  "(addr \<Rightarrow> runtime \<Rightarrow> runtime option) \<Rightarrow> runtime \<Rightarrow> (runtime \<times> event list) option" where
  "gc_collect dtor s =
     (if gc_lock s then None
      else case swap_roots (s\<lparr>gc_lock := True\<rparr>) of
        None \<Rightarrow> None
      | Some (roots, s1) \<Rightarrow>
          (case analyse_roots roots (objects s1, []) of
             None \<Rightarrow> None
           | Some (h2, release_objects) \<Rightarrow>
               (case release_all dtor release_objects (s1\<lparr>objects := h2\<rparr>, roots, []) of
                  None \<Rightarrow> None
                | Some (s3, roots3, tr3) \<Rightarrow>
                    (case free_all release_objects (objects s3, tr3) of
                       None \<Rightarrow> None
                     | Some (h4, tr4) \<Rightarrow>
                         (case reenroll roots3 (s3\<lparr>objects := h4\<rparr>) of
                            None \<Rightarrow> None
                          | Some s5 \<Rightarrow> Some (s5\<lparr>gc_lock := False\<rparr>, tr4))))))"

text \<open>A decrement that does nothing but \<^verbatim>\<open>fetch_sub\<close>, to run the collector with.\<close>

definition plain_decrement :: "addr \<Rightarrow> runtime \<Rightarrow> runtime option" where
  "plain_decrement f s =
     (case fetch_sub f (objects s) of
        None \<Rightarrow> None
      | Some (c, h) \<Rightarrow> Some (s\<lparr>objects := h\<rparr>))"


section \<open>The stages of a pass\<close>

lemma gc_collect_stages:
  assumes "gc_collect dtor s = Some (s', tr)"
  shows "\<exists>h2 release_objects s3 roots3 tr3 h4 s5.
      \<not> gc_lock s \<and> \<not> list_lock s \<and>
      analyse_roots (suspected_object_set s) (objects s, []) = Some (h2, release_objects) \<and>
      release_all dtor release_objects
        (s\<lparr>gc_lock := True, suspected_object_set := [], list_lock := False, objects := h2\<rparr>,
         suspected_object_set s, []) = Some (s3, roots3, tr3) \<and>
      free_all release_objects (objects s3, tr3) = Some (h4, tr) \<and>
      reenroll roots3 (s3\<lparr>objects := h4\<rparr>) = Some s5 \<and>
      s' = s5\<lparr>gc_lock := False\<rparr>"
  using assms
  by (auto simp: gc_collect_def swap_roots_def split: option.splits if_splits)

fun is_decrement :: "event \<Rightarrow> bool" where
  "is_decrement (FetchSub f) = True"
| "is_decrement e = False"

lemma release_fields_trace:
  "release_fields dtor object i n st = Some st' \<Longrightarrow>
     \<exists>d. snd st' = snd st @ d \<and> list_all is_decrement d"
proof (induction dtor object i n st arbitrary: st' rule: release_fields.induct)
  case (1 dtor object i n s tr)
  note eq = "1.prems" [unfolded release_fields.simps [of dtor object i n s tr]]
  show ?case
  proof (cases "i < n")
    case False
    with eq show ?thesis by simp
  next
    case True
    with eq obtain v where ld: "load_field object i (objects s) = Some v"
      by (cases "load_field object i (objects s)") auto
    show ?thesis
    proof (cases v)
      case None
      with eq True ld have "release_fields dtor object (Suc i) n (s, tr) = Some st'" by simp
      from "1.IH"(1) [OF True ld None this] show ?thesis by simp
    next
      case (Some f)
      with eq True ld obtain fo where fo: "fmlookup (objects s) f = Some fo"
        by (cases "fmlookup (objects s) f") auto
      show ?thesis
      proof (cases "ready_to_release_with_gc fo")
        case True
        with eq \<open>i < n\<close> ld Some fo
        have "release_fields dtor object (Suc i) n (s, tr) = Some st'" by simp
        with "1.IH"(3) [OF \<open>i < n\<close> ld Some fo] True show ?thesis by simp
      next
        case False
        with eq \<open>i < n\<close> ld Some fo obtain s1 where d: "dtor f s = Some s1"
          and r: "release_fields dtor object (Suc i) n (s1, tr @ [FetchSub f]) = Some st'"
          by (cases "dtor f s") auto
        from "1.IH"(2) [OF \<open>i < n\<close> ld Some fo False d r] show ?thesis by auto
      qed
    qed
  qed
qed

lemma release_object_trace:
  assumes "release_object dtor object (s, roots, tr) = Some (s', roots', tr')"
  shows "(\<exists>d. tr' = tr @ d \<and> list_all is_decrement d) \<and> roots' = removeAll object roots"
proof -
  from assms have
    "\<exists>n s1. release_fields dtor object 0 n (s1, tr) = Some (s', tr')"
    and r: "roots' = removeAll object roots"
    by (auto simp: release_object_def split: option.splits if_splits)
  then obtain n s1 where "release_fields dtor object 0 n (s1, tr) = Some (s', tr')"
    by blast
  from release_fields_trace [OF this] r show ?thesis by simp
qed

lemma release_all_trace:
  "release_all dtor os st = Some st' \<Longrightarrow>
     (\<exists>d. snd (snd st') = snd (snd st) @ d \<and> list_all is_decrement d) \<and>
     set (fst (snd st')) = set (fst (snd st)) - set os"
proof (induction os arbitrary: st)
  case Nil
  then show ?case by simp
next
  case (Cons object os)
  from Cons.prems obtain st1 where o: "release_object dtor object st = Some st1"
    and r: "release_all dtor os st1 = Some st'"
    by (cases "release_object dtor object st") auto
  obtain s roots tr where st: "st = (s, roots, tr)" by (cases st)
  obtain s1 roots1 tr1 where st1: "st1 = (s1, roots1, tr1)" by (cases st1)
  from release_object_trace [OF o [unfolded st st1]] obtain d1 where
    d1: "tr1 = tr @ d1" "list_all is_decrement d1" and r1: "roots1 = removeAll object roots"
    by blast
  from Cons.IH [OF r] obtain d2 where
    d2: "snd (snd st') = tr1 @ d2" "list_all is_decrement d2"
    and r2: "set (fst (snd st')) = set roots1 - set os"
    unfolding st1 by auto
  from d1 d2 have "snd (snd st') = tr @ (d1 @ d2) \<and> list_all is_decrement (d1 @ d2)" by simp
  then have "\<exists>d. snd (snd st') = snd (snd st) @ d \<and> list_all is_decrement d"
    unfolding st by (intro exI [of _ "d1 @ d2"]) simp
  moreover from r1 r2 have "set (fst (snd st')) = set (fst (snd st)) - set (object # os)"
    unfolding st by auto
  ultimately show ?case by simp
qed

lemma free_all_trace:
  "free_all os st = Some st' \<Longrightarrow>
     snd st' = snd st @ map Free os \<and> distinct os \<and> set os \<subseteq> fmdom' (fst st) \<and>
     fmdom' (fst st') = fmdom' (fst st) - set os"
proof (induction os st rule: free_all.induct)
  case (1 st)
  then show ?case by simp
next
  case (2 object os h tr)
  from "2.prems" have a: "fmlookup h object \<noteq> None"
    and r: "free_all os (fmdrop object h, tr @ [Free object]) = Some st'"
    by (auto split: if_splits)
  from "2.IH" [OF a r] a show ?case by (auto simp: fmdom'_notI intro: fmdom'I)
qed

lemma reenroll_registry:
  "reenroll roots s = Some s' \<Longrightarrow>
     objects s' = objects s \<and>
     set (suspected_object_set s') = set (suspected_object_set s) \<union> set roots"
  by (induction roots arbitrary: s)
    (auto simp: add_suspected_object_def split: option.splits if_splits)

lemma fold_insert_set: "set (fold List.insert xs ys) = set xs \<union> set ys"
  by (induction xs arbitrary: ys) auto

lemma fold_insert_distinct: "distinct ys \<Longrightarrow> distinct (fold List.insert xs ys)"
  by (induction xs arbitrary: ys) auto

lemma mark_released_distinct:
  "mark_released cm os st = Some st' \<Longrightarrow> distinct (snd st) \<Longrightarrow> distinct (snd st')"
  by (induction cm os st rule: mark_released.induct) (auto split: option.splits if_splits)

lemma analyse_root_distinct:
  assumes "analyse_root root st = Some st'" "distinct (snd st)"
  shows "distinct (snd st')"
  using assms
  by (auto simp: analyse_root_def fold_insert_distinct split: prod.splits option.splits if_splits
      dest!: mark_released_distinct)

lemma analyse_roots_distinct:
  "analyse_roots roots st = Some st' \<Longrightarrow> distinct (snd st) \<Longrightarrow> distinct (snd st')"
  by (induction roots arbitrary: st) (auto split: option.splits dest: analyse_root_distinct)


text \<open>
  A cycle of two objects whose second object also holds an object that is
  referenced from outside, the first object being enrolled in the registry.
\<close>

definition cycle_with_tail :: heap where
  "cycle_with_tail =
     fmupd 0 ((example_object 1 [Some 1])\<lparr>buffered := True\<rparr>)
       (fmupd 1 (example_object 1 [Some 0, Some 2]) (fmupd 2 (example_object 2 []) fmempty))"

definition tail_runtime :: runtime where
  "tail_runtime =
     \<lparr>objects = cycle_with_tail, suspected_object_set = [0], list_lock = False,
      gc_lock = False\<rparr>"

lemma tail_runtime_run:
  "\<exists>s'. gc_collect plain_decrement tail_runtime = Some (s', [FetchSub 2, Free 1, Free 0])"
  by (simp add: gc_collect_def swap_roots_def analyse_root_def mark_red.simps mark_gray.simps
      mark_white.simps mark_black.simps release_object_def release_fields.simps
      plain_decrement_def fetch_sub_def load_field_def store_ready_def lock_def unlock_def
      fields_of_def color_at_def count_at_def count_index_def color_index_def
      example_object_def add_suspected_object_def tail_runtime_def cycle_with_tail_def)

section \<open>Claims about the order of decrements and frees\<close>

text \<open>
  C10.  Whatever the destructor that decrements does, the trace of a pass that
  returns is a sequence of compensating decrements followed by exactly one
  \<^verbatim>\<open>free\<close> for each member of the release set computed by the analysis of the
  roots, each member once: every decrement, and with it the loop over the slots
  of the released objects in which the decrements are made, comes before the
  first \<^verbatim>\<open>free\<close>.  After the pass no member of the release set is allocated.
\<close>

theorem gc_collect_decrements_before_frees:
  assumes "gc_collect dtor s = Some (s', tr)"
  shows "\<exists>h2 release_objects decs.
      analyse_roots (suspected_object_set s) (objects s, []) = Some (h2, release_objects) \<and>
      tr = decs @ map Free release_objects \<and> list_all is_decrement decs \<and>
      distinct release_objects \<and> set release_objects \<inter> fmdom' (objects s') = {}"
proof -
  from gc_collect_stages [OF assms] obtain h2 release_objects s3 roots3 tr3 h4 s5 where
    a: "analyse_roots (suspected_object_set s) (objects s, []) = Some (h2, release_objects)"
    and r: "release_all dtor release_objects
        (s\<lparr>gc_lock := True, suspected_object_set := [], list_lock := False, objects := h2\<rparr>,
         suspected_object_set s, []) = Some (s3, roots3, tr3)"
    and f: "free_all release_objects (objects s3, tr3) = Some (h4, tr)"
    and e: "reenroll roots3 (s3\<lparr>objects := h4\<rparr>) = Some s5"
    and s': "s' = s5\<lparr>gc_lock := False\<rparr>"
    by blast
  from release_all_trace [OF r] have d: "list_all is_decrement tr3" by auto
  from free_all_trace [OF f] have t: "tr = tr3 @ map Free release_objects"
    and di: "distinct release_objects"
    and dom: "fmdom' h4 = fmdom' (objects s3) - set release_objects"
    by simp_all
  from reenroll_registry [OF e] s' have "objects s' = h4" by simp
  with dom have "set release_objects \<inter> fmdom' (objects s') = {}" by auto
  with a t d di show ?thesis by blast
qed

theorem gc_collect_decrements_before_frees_witness:
  "\<exists>s' h2 release_objects decs.
      gc_collect plain_decrement tail_runtime = Some (s', [FetchSub 2, Free 1, Free 0]) \<and>
      analyse_roots (suspected_object_set tail_runtime) (objects tail_runtime, [])
        = Some (h2, release_objects) \<and>
      [FetchSub 2, Free 1, Free 0] = decs @ map Free release_objects \<and>
      list_all is_decrement decs \<and>
      distinct release_objects \<and> set release_objects \<inter> fmdom' (objects s') = {}"
proof -
  from tail_runtime_run obtain s' where
    r: "gc_collect plain_decrement tail_runtime = Some (s', [FetchSub 2, Free 1, Free 0])"
    by blast
  from gc_collect_decrements_before_frees [OF r] r show ?thesis by blast
qed


section \<open>What the analysis of a root leaves behind\<close>

text \<open>
  The analysis of a root writes nothing but lock flags and the flag
  \<^verbatim>\<open>ready_to_release_with_gc\<close>: two heaps are related when they agree up to
  these two flags.
\<close>

definition clear_flags :: "HeapObject \<Rightarrow> HeapObject" where
  "clear_flags ob = ob\<lparr>spin_lock_flag := False, ready_to_release_with_gc := False\<rparr>"

definition flag_ext :: "heap \<Rightarrow> heap \<Rightarrow> bool" where
  "flag_ext h h' \<longleftrightarrow>
     (\<forall>a. map_option clear_flags (fmlookup h' a) = map_option clear_flags (fmlookup h a))"

lemma flag_ext_refl: "flag_ext h h"
  by (simp add: flag_ext_def)

lemma flag_ext_trans: "flag_ext h h1 \<Longrightarrow> flag_ext h1 h2 \<Longrightarrow> flag_ext h h2"
  unfolding flag_ext_def by (intro allI) (erule_tac x = a in allE, erule_tac x = a in allE, erule trans, assumption)

lemma flag_ext_cases:
  assumes "flag_ext h h'"
  obtains "fmlookup h a = None" "fmlookup h' a = None"
  | ob ob' where "fmlookup h a = Some ob" "fmlookup h' a = Some ob'"
      "clear_flags ob' = clear_flags ob"
proof -
  from assms have "map_option clear_flags (fmlookup h' a) = map_option clear_flags (fmlookup h a)"
    by (simp add: flag_ext_def)
  then show ?thesis
    using that by (cases "fmlookup h a"; cases "fmlookup h' a") auto
qed

lemma clear_flags_eq:
  assumes "clear_flags ob' = clear_flags ob"
  shows "obj_fields ob' = obj_fields ob" "buffered ob' = buffered ob"
    "is_cyclic_type ob' = is_cyclic_type ob" "reference_count ob' = reference_count ob"
    "is_mutex ob' = is_mutex ob"
  using assms by (cases ob; cases ob'; simp add: clear_flags_def)+

lemma clear_flags_inj:
  assumes "clear_flags ob' = clear_flags ob" "spin_lock_flag ob' = spin_lock_flag ob"
    "ready_to_release_with_gc ob' = ready_to_release_with_gc ob"
  shows "ob' = ob"
  using assms by (cases ob; cases ob') (simp add: clear_flags_def)

lemma flag_ext_dom: "flag_ext h h' \<Longrightarrow> fmdom' h' = fmdom' h"
proof -
  assume a: "flag_ext h h'"
  have "x \<in> fmdom' h' \<longleftrightarrow> x \<in> fmdom' h" for x
    by (rule flag_ext_cases [OF a, of x]) (simp_all add: fmlookup_dom'_iff)
  then show ?thesis by blast
qed

lemma flag_ext_fields_of:
  assumes "flag_ext h h'"
  shows "fields_of h' x = fields_of h x"
proof (rule flag_ext_cases [OF assms, of x])
  assume "fmlookup h x = None" "fmlookup h' x = None"
  then show ?thesis by (simp add: fields_of_def)
next
  fix ob ob'
  assume l: "fmlookup h x = Some ob" "fmlookup h' x = Some ob'"
    and c: "clear_flags ob' = clear_flags ob"
  from clear_flags_eq(1) [OF c] l show ?thesis by (simp add: fields_of_def)
qed

lemma flag_ext_reach: "flag_ext h h' \<Longrightarrow> reach h' a = reach h a"
  by (rule reach_cong) (rule flag_ext_fields_of)

lemma flag_ext_eq:
  assumes "flag_ext h h'" "\<And>x. locked h' x = locked h x" "\<And>x. ready h' x = ready h x"
  shows "h' = h"
proof (rule fmap_ext)
  fix a
  show "fmlookup h' a = fmlookup h a"
  proof (rule flag_ext_cases [OF assms(1), of a])
    assume "fmlookup h a = None" "fmlookup h' a = None"
    then show ?thesis by simp
  next
    fix ob ob'
    assume l: "fmlookup h a = Some ob" "fmlookup h' a = Some ob'"
      and c: "clear_flags ob' = clear_flags ob"
    from assms(2) [of a] l have 1: "spin_lock_flag ob' = spin_lock_flag ob"
      by (simp add: locked_def)
    from assms(3) [of a] l have 2: "ready_to_release_with_gc ob' = ready_to_release_with_gc ob"
      by (simp add: ready_def)
    from clear_flags_inj [OF c 1 2] l show ?thesis by simp
  qed
qed

lemma lock_flag_ext: "lock a h = Some h' \<Longrightarrow> flag_ext h h'"
  by (auto simp: lock_def flag_ext_def clear_flags_def split: option.splits if_splits)

lemma unlock_flag_ext: "unlock a h = Some h' \<Longrightarrow> flag_ext h h'"
  by (auto simp: unlock_def flag_ext_def clear_flags_def split: option.splits if_splits)

lemma store_ready_flag_ext: "store_ready a h = Some h' \<Longrightarrow> flag_ext h h'"
  by (auto simp: store_ready_def flag_ext_def clear_flags_def split: option.splits if_splits)

lemma store_ready_locked: "store_ready a h = Some h' \<Longrightarrow> locked h' x = locked h x"
  by (auto simp: store_ready_def locked_def split: option.splits if_splits)

lemma lock_ready: "lock a h = Some h' \<Longrightarrow> ready h' x = ready h x"
  by (auto simp: lock_def ready_def split: option.splits if_splits)

lemma lock_all_flag_ext: "lock_all as h = Some h' \<Longrightarrow> flag_ext h h' \<and> (\<forall>x. ready h' x = ready h x)"
proof (induction as arbitrary: h)
  case Nil
  then show ?case by (simp add: flag_ext_refl)
next
  case (Cons a as)
  then obtain h1 where l: "lock a h = Some h1" and r: "lock_all as h1 = Some h'"
    by (auto split: option.splits)
  from Cons.IH [OF r] have f: "flag_ext h1 h'" and e: "\<And>x. ready h' x = ready h1 x" by simp_all
  from flag_ext_trans [OF lock_flag_ext [OF l] f] e lock_ready [OF l] show ?case by simp
qed

lemma unlock_all_props:
  "unlock_all as h = Some h' \<Longrightarrow>
     flag_ext h h' \<and> (\<forall>x. ready h' x = ready h x) \<and>
     (\<forall>x. locked h' x \<longleftrightarrow> locked h x \<and> x \<notin> set as)"
proof (induction as arbitrary: h)
  case Nil
  then show ?case by (simp add: flag_ext_refl)
next
  case (Cons a as)
  then obtain h1 where l: "unlock a h = Some h1" and r: "unlock_all as h1 = Some h'"
    by (auto split: option.splits)
  from Cons.IH [OF r] have f: "flag_ext h1 h'" and e: "\<And>x. ready h' x = ready h1 x"
    and k: "\<And>x. locked h' x \<longleftrightarrow> locked h1 x \<and> x \<notin> set as" by simp_all
  from flag_ext_trans [OF unlock_flag_ext [OF l] f] have "flag_ext h h'" .
  moreover from e unlock_ready [OF l] have "\<forall>x. ready h' x = ready h x" by simp
  moreover from k unlock_locked [OF l] have "\<forall>x. locked h' x \<longleftrightarrow> locked h x \<and> x \<notin> set (a # as)"
    by auto
  ultimately show ?case by simp
qed

lemma unlock_all_succeeds: "set as \<subseteq> fmdom' h \<Longrightarrow> \<exists>h'. unlock_all as h = Some h'"
proof (induction as arbitrary: h)
  case Nil
  then show ?case by simp
next
  case (Cons a as)
  from Cons.prems obtain ob where "fmlookup h a = Some ob" by (auto simp: fmlookup_dom'_iff)
  then obtain h1 where l: "unlock a h = Some h1" by (simp add: unlock_def)
  from flag_ext_dom [OF unlock_flag_ext [OF l]] Cons.prems have "set as \<subseteq> fmdom' h1" by simp
  from Cons.IH [OF this] l show ?case by simp
qed

lemma lock_unlock_all:
  assumes "lock_all as h = Some h1"
  shows "unlock_all as h1 = Some h"
proof -
  from lock_all_dom [OF assms] have "set as \<subseteq> fmdom' h1" by simp
  from unlock_all_succeeds [OF this] obtain h2 where u: "unlock_all as h1 = Some h2" by blast
  from lock_all_flag_ext [OF assms] have f1: "flag_ext h h1" and r1: "\<And>x. ready h1 x = ready h x"
    by simp_all
  from unlock_all_props [OF u] have f2: "flag_ext h1 h2" and r2: "\<And>x. ready h2 x = ready h1 x"
    and k2: "\<And>x. locked h2 x \<longleftrightarrow> locked h1 x \<and> x \<notin> set as" by simp_all
  have k: "locked h2 x = locked h x" for x
    using lock_all_locked [OF assms, of x] k2 [of x] by auto
  have "h2 = h"
    by (rule flag_ext_eq [OF flag_ext_trans [OF f1 f2] k]) (simp add: r1 r2)
  with u show ?thesis by simp
qed

lemma mark_released_props:
  "mark_released cm os st = Some st' \<Longrightarrow>
     flag_ext (fst st) (fst st') \<and> (\<forall>x. locked (fst st') x = locked (fst st) x) \<and>
     set (snd st) \<subseteq> set (snd st') \<and> set (snd st') \<subseteq> set (snd st) \<union> set os"
proof (induction cm os st rule: mark_released.induct)
  case (1 cm st)
  then show ?case by (simp add: flag_ext_refl)
next
  case (2 cm object os h rel)
  show ?case
  proof (cases "color_at cm object = white")
    case True
    with "2.prems" obtain h1 where s: "store_ready object h = Some h1"
      and r: "mark_released cm os (h1, List.insert object rel) = Some st'"
      by (auto split: option.splits)
    from "2.IH"(1) [OF True s r] have f: "flag_ext h1 (fst st')"
      and k: "\<And>x. locked (fst st') x = locked h1 x"
      and i: "set (List.insert object rel) \<subseteq> set (snd st')"
        "set (snd st') \<subseteq> set (List.insert object rel) \<union> set os"
      by simp_all
    from flag_ext_trans [OF store_ready_flag_ext [OF s] f] have "flag_ext h (fst st')" .
    moreover from k store_ready_locked [OF s] have "\<forall>x. locked (fst st') x = locked h x" by simp
    moreover from i have "set rel \<subseteq> set (snd st')"
      "set (snd st') \<subseteq> set rel \<union> set (object # os)" by auto
    ultimately show ?thesis by simp
  next
    case False
    with "2.prems" have r: "mark_released cm os (h, rel) = Some st'" by simp
    from "2.IH"(2) [OF False r] show ?thesis by auto
  qed
qed

lemma mark_released_succeeds:
  "set os \<subseteq> fmdom' (fst st) \<Longrightarrow> \<exists>st'. mark_released cm os st = Some st'"
proof (induction cm os st rule: mark_released.induct)
  case (1 cm st)
  then show ?case by simp
next
  case (2 cm object os h rel)
  show ?case
  proof (cases "color_at cm object = white")
    case True
    from "2.prems" obtain ob where "fmlookup h object = Some ob"
      by (auto simp: fmlookup_dom'_iff)
    then obtain h1 where s: "store_ready object h = Some h1" by (simp add: store_ready_def)
    from flag_ext_dom [OF store_ready_flag_ext [OF s]] "2.prems"
    have "set os \<subseteq> fmdom' (fst (h1, List.insert object rel))" by simp
    from "2.IH"(1) [OF True s this] True s show ?thesis by simp
  next
    case False
    from "2.prems" have "set os \<subseteq> fmdom' (fst (h, rel))" by simp
    from "2.IH"(2) [OF False this] False show ?thesis by simp
  qed
qed


lemma analyse_root_acyclic:
  assumes ok: "\<forall>x\<in>reach h root. x \<in> fmdom' h \<and> \<not> locked h x"
    and nc: "\<not> (\<exists>x\<in>reach h root. Some root \<in> set (fields_of h x))"
  shows "\<exists>ac t.
      check_ready_to_collect root (h, [], [])
        = Some (\<forall>x\<in>reach h root. ready h x, (h, ac, t)) \<and>
      analyse_root root (h, rel)
        = Some (h, if \<forall>x\<in>reach h root. ready h x then fold List.insert ac rel else rel) \<and>
      distinct ac \<and> set ac \<subseteq> reach h root \<and>
      ((\<forall>x\<in>reach h root. ready h x) \<longrightarrow> set ac = reach h root) \<and>
      loads_unlocked t []"
proof -
  from mark_red_result [OF ok] obtain h1 cm vis cyc where
    r: "mark_red root root (h, Map.empty, [], False) = Some (h1, cm, vis, cyc)"
    and la: "lock_all vis h = Some h1"
    and cy: "cyc \<longleftrightarrow> (\<exists>x\<in>reach h root. Some root \<in> set (fields_of h x))"
    by blast
  from cy nc have cyc: "\<not> cyc" by simp
  from lock_unlock_all [OF la] have u: "unlock_all vis h1 = Some h" .
  from check_ready_result [OF ok, of "[]"] obtain ac t where
    c: "check_ready_to_collect root (h, [], [])
          = Some (\<forall>x\<in>reach h root. ready h x, (h, ac, t))"
    and p: "distinct ac" "set ac \<subseteq> reach h root"
      "(\<forall>x\<in>reach h root. ready h x) \<longrightarrow> set ac = reach h root" "loads_unlocked t []"
    by auto
  from r cyc u c have "analyse_root root (h, rel)
        = Some (h, if \<forall>x\<in>reach h root. ready h x then fold List.insert ac rel else rel)"
    by (simp add: analyse_root_def)
  with c p show ?thesis by blast
qed





section \<open>Claims about the check of an acyclic root\<close>





section \<open>The registry and the flag \<^verbatim>\<open>buffered\<close>\<close>





lemma reenroll_props:
  "\<not> list_lock s \<Longrightarrow>
     \<exists>s'. reenroll roots s = Some s' \<and> objects s' = objects s \<and> \<not> list_lock s' \<and>
          gc_lock s' = gc_lock s \<and>
          set (suspected_object_set s') = set (suspected_object_set s) \<union> set roots \<and>
          (distinct (suspected_object_set s) \<longrightarrow> distinct (suspected_object_set s'))"
proof (induction roots arbitrary: s)
  case Nil
  then show ?case by simp
next
  case (Cons root roots)
  let ?s1 = "s\<lparr>suspected_object_set := List.insert root (suspected_object_set s),
                list_lock := False\<rparr>"
  from Cons.prems have a: "add_suspected_object root s = Some ?s1"
    by (simp add: add_suspected_object_def)
  have "\<not> list_lock ?s1" by simp
  from Cons.IH [OF this] obtain s' where
    "reenroll roots ?s1 = Some s'" "objects s' = objects ?s1" "\<not> list_lock s'"
    "gc_lock s' = gc_lock ?s1"
    "set (suspected_object_set s') = set (suspected_object_set ?s1) \<union> set roots"
    "distinct (suspected_object_set ?s1) \<longrightarrow> distinct (suspected_object_set s')"
    by blast
  with a show ?case by auto
qed



section \<open>Claims about the registry\<close>





section \<open>The analysis of all roots returns\<close>

lemma analyse_root_cyclic:
  assumes ok: "\<forall>x\<in>reach h root. x \<in> fmdom' h \<and> \<not> locked h x"
    and cy: "\<exists>x\<in>reach h root. Some root \<in> set (fields_of h x)"
  shows "\<exists>h' rel'. analyse_root root (h, rel) = Some (h', rel') \<and> flag_ext h h' \<and>
      (\<forall>x. locked h' x = locked h x) \<and> set rel' \<subseteq> set rel \<union> reach h root"
proof -
  from scan_white_counts [OF ok] obtain h1 cm1 vis cyc cm2 cnt2 cm3 cnt3 where
    r: "mark_red root root (h, Map.empty, [], False) = Some (h1, cm1, vis, cyc)"
    and g: "mark_gray h1 root True (cm1, Map.empty) = Some (cm2, cnt2)"
    and w: "mark_white h1 root (cm2, cnt2) = Some (cm3, cnt3)"
    and v: "set vis = reach h root" and la: "lock_all vis h = Some h1"
    and c: "cyc \<longleftrightarrow> (\<exists>x\<in>reach h root. Some root \<in> set (fields_of h x))"
    by blast
  from c cy have cyc: cyc by simp
  from lock_all_dom [OF la] have "set vis \<subseteq> fmdom' (fst (h1, rel))" by simp
  from mark_released_succeeds [OF this, of cm3] obtain st' where
    m0: "mark_released cm3 vis (h1, rel) = Some st'" by blast
  obtain h2 rel2 where st': "st' = (h2, rel2)" by (cases st')
  note m = m0 [unfolded st']
  from mark_released_props [OF m] have f2: "flag_ext h1 h2"
    and k2: "\<And>x. locked h2 x = locked h1 x"
    and i: "set rel2 \<subseteq> set rel \<union> set vis"
    by simp_all
  from flag_ext_dom [OF f2] lock_all_dom [OF la] have "set vis \<subseteq> fmdom' h2" by simp
  from unlock_all_succeeds [OF this] obtain h3 where u: "unlock_all vis h2 = Some h3" by blast
  from unlock_all_props [OF u] have f3: "flag_ext h2 h3"
    and k3: "\<And>x. locked h3 x \<longleftrightarrow> locked h2 x \<and> x \<notin> set vis" by simp_all
  from lock_all_flag_ext [OF la] have f1: "flag_ext h h1" by simp
  have f: "flag_ext h h3" by (rule flag_ext_trans [OF flag_ext_trans [OF f1 f2] f3])
  have k: "locked h3 x = locked h x" for x
    using lock_all_locked [OF la, of x] k2 [of x] k3 [of x] by auto
  from r cyc g w m u have "analyse_root root (h, rel) = Some (h3, rel2)"
    by (simp add: analyse_root_def)
  with f k i v show ?thesis by auto
qed

lemma analyse_root_frame:
  assumes ok: "\<forall>x\<in>reach h root. x \<in> fmdom' h \<and> \<not> locked h x"
  shows "\<exists>h' rel'. analyse_root root (h, rel) = Some (h', rel') \<and> flag_ext h h' \<and>
      (\<forall>x. locked h' x = locked h x) \<and> set rel' \<subseteq> set rel \<union> reach h root"
proof (cases "\<exists>x\<in>reach h root. Some root \<in> set (fields_of h x)")
  case True
  from analyse_root_cyclic [OF ok True] show ?thesis .
next
  case False
  from analyse_root_acyclic [OF ok False, of rel] obtain ac where
    a: "analyse_root root (h, rel)
          = Some (h, if \<forall>x\<in>reach h root. ready h x then fold List.insert ac rel else rel)"
    and s: "set ac \<subseteq> reach h root"
    by blast
  let ?rel = "if \<forall>x\<in>reach h root. ready h x then fold List.insert ac rel else rel"
  from s have "set ?rel \<subseteq> set rel \<union> reach h root" by (auto simp: fold_insert_set)
  with a flag_ext_refl [of h] show ?thesis by auto
qed

text \<open>
  A heap in which every slot of an allocated object holds an allocated object,
  and one in which moreover no lock is held.
\<close>

definition closed_heap :: "heap \<Rightarrow> bool" where
  "closed_heap h \<longleftrightarrow> (\<forall>a\<in>fmdom' h. \<forall>b. Some b \<in> set (fields_of h a) \<longrightarrow> b \<in> fmdom' h)"

definition wf_heap :: "heap \<Rightarrow> bool" where
  "wf_heap h \<longleftrightarrow> closed_heap h \<and> (\<forall>a\<in>fmdom' h. \<not> locked h a)"

lemma closed_heap_reach:
  assumes "closed_heap h" "a \<in> fmdom' h"
  shows "reach h a \<subseteq> fmdom' h"
proof (rule reach_closed_subset [OF assms(2)])
  fix x assume "x \<in> fmdom' h"
  with assms(1) show "edges h `` {x} \<subseteq> fmdom' h"
    by (auto simp: closed_heap_def edges_def)
qed

lemma analyse_root_wf:
  assumes "wf_heap h" "root \<in> fmdom' h"
  shows "\<exists>h' rel'. analyse_root root (h, rel) = Some (h', rel') \<and> wf_heap h' \<and>
      fmdom' h' = fmdom' h \<and> set rel' \<subseteq> set rel \<union> fmdom' h"
proof -
  from assms have c: "closed_heap h" and u: "\<And>a. a \<in> fmdom' h \<Longrightarrow> \<not> locked h a"
    by (simp_all add: wf_heap_def)
  from closed_heap_reach [OF c assms(2)] have sub: "reach h root \<subseteq> fmdom' h" .
  with u have ok: "\<forall>x\<in>reach h root. x \<in> fmdom' h \<and> \<not> locked h x" by auto
  from analyse_root_frame [OF ok, of rel] obtain h' rel' where
    a: "analyse_root root (h, rel) = Some (h', rel')" and f: "flag_ext h h'"
    and k: "\<And>x. locked h' x = locked h x" and r: "set rel' \<subseteq> set rel \<union> reach h root"
    by blast
  from assms(1) have "wf_heap h'"
    by (simp add: wf_heap_def closed_heap_def flag_ext_dom [OF f] flag_ext_fields_of [OF f] k)
  with a flag_ext_dom [OF f] r sub show ?thesis by blast
qed

lemma analyse_roots_wf:
  "wf_heap (fst st) \<Longrightarrow> set roots \<subseteq> fmdom' (fst st) \<Longrightarrow>
     \<exists>st'. analyse_roots roots st = Some st' \<and> wf_heap (fst st') \<and>
       fmdom' (fst st') = fmdom' (fst st) \<and> set (snd st') \<subseteq> set (snd st) \<union> fmdom' (fst st)"
proof (induction roots arbitrary: st)
  case Nil
  then show ?case by simp
next
  case (Cons root roots)
  obtain h rel where st: "st = (h, rel)" by (cases st)
  from Cons.prems have w: "wf_heap h" and r: "root \<in> fmdom' h" and rs: "set roots \<subseteq> fmdom' h"
    by (simp_all add: st)
  from analyse_root_wf [OF w r, of rel] obtain h1 rel1 where
    a: "analyse_root root (h, rel) = Some (h1, rel1)" and w1: "wf_heap h1"
    and d1: "fmdom' h1 = fmdom' h" and s1: "set rel1 \<subseteq> set rel \<union> fmdom' h"
    by blast
  from w1 rs d1 have "wf_heap (fst (h1, rel1))" "set roots \<subseteq> fmdom' (fst (h1, rel1))" by simp_all
  from Cons.IH [OF this] obtain st' where
    b: "analyse_roots roots (h1, rel1) = Some st'" and w2: "wf_heap (fst st')"
    and d2: "fmdom' (fst st') = fmdom' h1" and s2: "set (snd st') \<subseteq> set rel1 \<union> fmdom' h1"
    by auto
  from a b have "analyse_roots (root # roots) st = Some st'" by (simp add: st)
  moreover from s1 s2 d1 have "set (snd st') \<subseteq> set (snd st) \<union> fmdom' (fst st)"
    by (auto simp: st)
  ultimately show ?case using w2 d2 d1 by (auto simp: st)
qed


section \<open>The pass returns\<close>

text \<open>
  What the pass needs of the destructor it calls: from a state with a closed
  heap and a free list lock it returns, in such a state again, with the same
  objects allocated and no slot array resized.
\<close>

definition pass_ok :: "runtime \<Rightarrow> bool" where
  "pass_ok s \<longleftrightarrow> closed_heap (objects s) \<and> \<not> list_lock s"

definition pass_ext :: "runtime \<Rightarrow> runtime \<Rightarrow> bool" where
  "pass_ext s s' \<longleftrightarrow>
     pass_ok s' \<and> fmdom' (objects s') = fmdom' (objects s) \<and>
     (\<forall>a. length (fields_of (objects s') a) = length (fields_of (objects s) a))"

definition preserves_pass :: "(addr \<Rightarrow> runtime \<Rightarrow> runtime option) \<Rightarrow> bool" where
  "preserves_pass dtor \<longleftrightarrow>
     (\<forall>f s. pass_ok s \<and> f \<in> fmdom' (objects s) \<longrightarrow> (\<exists>s'. dtor f s = Some s' \<and> pass_ext s s'))"

lemma pass_ext_refl: "pass_ok s \<Longrightarrow> pass_ext s s"
  by (simp add: pass_ext_def)

lemma pass_ext_trans:
  assumes "pass_ext s s1" "pass_ext s1 s2"
  shows "pass_ext s s2"
proof -
  from assms have "pass_ok s2" "fmdom' (objects s2) = fmdom' (objects s)" by (simp_all add: pass_ext_def)
  moreover have "length (fields_of (objects s2) a) = length (fields_of (objects s) a)" for a
  proof -
    from assms(2) have "length (fields_of (objects s2) a) = length (fields_of (objects s1) a)"
      by (simp add: pass_ext_def)
    also from assms(1) have "\<dots> = length (fields_of (objects s) a)" by (simp add: pass_ext_def)
    finally show ?thesis .
  qed
  ultimately show ?thesis by (simp add: pass_ext_def)
qed

lemma preserves_passD:
  "preserves_pass dtor \<Longrightarrow> pass_ok s \<Longrightarrow> f \<in> fmdom' (objects s) \<Longrightarrow>
     \<exists>s'. dtor f s = Some s' \<and> pass_ext s s'"
  by (simp add: preserves_pass_def)

lemma release_fields_succeeds:
  "preserves_pass dtor \<Longrightarrow> pass_ok (fst st) \<Longrightarrow> object \<in> fmdom' (objects (fst st)) \<Longrightarrow>
     n = length (fields_of (objects (fst st)) object) \<Longrightarrow>
     \<exists>st'. release_fields dtor object i n st = Some st' \<and> pass_ext (fst st) (fst st')"
proof (induction dtor object i n st rule: release_fields.induct)
  case (1 dtor object i n s tr)
  from "1.prems" have d: "preserves_pass dtor" and p: "pass_ok s"
    and o: "object \<in> fmdom' (objects s)" and n: "n = length (fields_of (objects s) object)"
    by simp_all
  note eq = release_fields.simps [of dtor object i n s tr]
  show ?case
  proof (cases "i < n")
    case False
    with p show ?thesis by (simp add: eq pass_ext_refl)
  next
    case True
    from o obtain ob where ob: "fmlookup (objects s) object = Some ob"
      by (auto simp: fmlookup_dom'_iff)
    with n have n': "n = length (obj_fields ob)" by (simp add: fields_of_def)
    with ob True have ld: "load_field object i (objects s) = Some (obj_fields ob ! i)"
      by (simp add: load_field_def)
    show ?thesis
    proof (cases "obj_fields ob ! i")
      case None
      from "1.IH"(1) [OF True ld None "1.prems"] True ld None show ?thesis by (simp add: eq)
    next
      case (Some f)
      from True n' have "obj_fields ob ! i \<in> set (obj_fields ob)" by simp
      with Some ob have "Some f \<in> set (fields_of (objects s) object)" by (simp add: fields_of_def)
      with p o have f: "f \<in> fmdom' (objects s)" by (auto simp: pass_ok_def closed_heap_def)
      then obtain fo where fo: "fmlookup (objects s) f = Some fo"
        by (auto simp: fmlookup_dom'_iff)
      show ?thesis
      proof (cases "ready_to_release_with_gc fo")
        case True
        then have nn: "\<not> \<not> ready_to_release_with_gc fo" by simp
        from "1.IH"(3) [OF \<open>i < n\<close> ld Some fo nn "1.prems"] \<open>i < n\<close> ld Some fo True
        show ?thesis by (simp add: eq)
      next
        case False
        from preserves_passD [OF d p f] obtain s1 where dt: "dtor f s = Some s1"
          and e: "pass_ext s s1" by blast
        from e o n have a: "pass_ok (fst (s1, tr @ [FetchSub f]))"
          "object \<in> fmdom' (objects (fst (s1, tr @ [FetchSub f])))"
          "n = length (fields_of (objects (fst (s1, tr @ [FetchSub f]))) object)"
          by (simp_all add: pass_ext_def)
        from "1.IH"(2) [OF \<open>i < n\<close> ld Some fo False dt d a] obtain st' where
          r: "release_fields dtor object (Suc i) n (s1, tr @ [FetchSub f]) = Some st'"
          and e': "pass_ext s1 (fst st')" by auto
        from pass_ext_trans [OF e e'] r \<open>i < n\<close> ld Some fo False dt show ?thesis
          by (simp add: eq)
      qed
    qed
  qed
qed

lemma release_object_succeeds:
  assumes "preserves_pass dtor" "pass_ok s" "object \<in> fmdom' (objects s)"
  shows "\<exists>st'. release_object dtor object (s, roots, tr) = Some st' \<and> pass_ext s (fst st')"
proof -
  from assms(3) obtain ob where ob: "fmlookup (objects s) object = Some ob"
    by (auto simp: fmlookup_dom'_iff)
  define s1 where "s1 = (if is_cyclic_type ob \<and> buffered ob
     then s\<lparr>suspected_object_set := removeAll object (suspected_object_set s), list_lock := False\<rparr>
     else s)"
  from assms(2) have p1: "pass_ok s1" and o1: "objects s1 = objects s"
    by (simp_all add: s1_def pass_ok_def)
  from ob o1 assms(3) have "pass_ok (fst (s1, tr))" "object \<in> fmdom' (objects (fst (s1, tr)))"
    "length (obj_fields ob) = length (fields_of (objects (fst (s1, tr))) object)"
    using p1 by (simp_all add: fields_of_def)
  from release_fields_succeeds [OF assms(1) this, of 0] obtain st' where
    rf: "release_fields dtor object 0 (length (obj_fields ob)) (s1, tr) = Some st'"
    and pe: "pass_ext s1 (fst st')" by auto
  obtain s2 tr2 where st': "st' = (s2, tr2)" by (cases st')
  from pe o1 have "pass_ext s s2" by (simp add: pass_ext_def st')
  moreover from assms(2) ob rf
  have "release_object dtor object (s, roots, tr) = Some (s2, removeAll object roots, tr2)"
    by (cases "is_cyclic_type ob \<and> buffered ob")
      (auto simp: release_object_def s1_def st' pass_ok_def)
  ultimately show ?thesis by simp
qed

lemma release_all_succeeds:
  "preserves_pass dtor \<Longrightarrow> pass_ok (fst st) \<Longrightarrow> set os \<subseteq> fmdom' (objects (fst st)) \<Longrightarrow>
     \<exists>st'. release_all dtor os st = Some st' \<and> pass_ext (fst st) (fst st')"
proof (induction os arbitrary: st)
  case Nil
  then show ?case by (simp add: pass_ext_refl)
next
  case (Cons object os)
  obtain s roots tr where st: "st = (s, roots, tr)" by (cases st)
  from Cons.prems have p: "pass_ok s" and o: "object \<in> fmdom' (objects s)"
    and os: "set os \<subseteq> fmdom' (objects s)" by (simp_all add: st)
  from release_object_succeeds [OF Cons.prems(1) p o, of roots tr] obtain st1 where
    r1: "release_object dtor object (s, roots, tr) = Some st1" and e1: "pass_ext s (fst st1)"
    by blast
  from e1 os have "pass_ok (fst st1)" "set os \<subseteq> fmdom' (objects (fst st1))"
    by (simp_all add: pass_ext_def)
  from Cons.IH [OF Cons.prems(1) this] obtain st' where
    r2: "release_all dtor os st1 = Some st'" and e2: "pass_ext (fst st1) (fst st')" by blast
  from pass_ext_trans [OF e1 e2] r1 r2 show ?case by (simp add: st)
qed

lemma free_all_succeeds:
  "distinct os \<Longrightarrow> set os \<subseteq> fmdom' (fst st) \<Longrightarrow> \<exists>st'. free_all os st = Some st'"
proof (induction os st rule: free_all.induct)
  case (1 st)
  then show ?case by simp
next
  case (2 object os h tr)
  from "2.prems" obtain ob where ob: "fmlookup h object = Some ob"
    by (auto simp: fmlookup_dom'_iff)
  then have a: "fmlookup h object \<noteq> None" by simp
  from "2.prems" have "distinct os" "set os \<subseteq> fmdom' (fst (fmdrop object h, tr @ [Free object]))"
    by auto
  from "2.IH" [OF a this] a show ?case by simp
qed

lemma gc_collect_returns:
  assumes d: "preserves_pass dtor" and w: "wf_heap (objects s)"
    and r: "set (suspected_object_set s) \<subseteq> fmdom' (objects s)"
    and nl: "\<not> list_lock s" and ng: "\<not> gc_lock s"
  shows "\<exists>s' tr. gc_collect dtor s = Some (s', tr)"
proof -
  let ?roots = "suspected_object_set s"
  from w r have "wf_heap (fst (objects s, []::addr list))"
    "set ?roots \<subseteq> fmdom' (fst (objects s, []::addr list))" by simp_all
  from analyse_roots_wf [OF this] obtain st2 where
    an0: "analyse_roots ?roots (objects s, []) = Some st2" and w2: "wf_heap (fst st2)"
    and d2: "fmdom' (fst st2) = fmdom' (objects s)" and r2: "set (snd st2) \<subseteq> fmdom' (objects s)"
    by auto
  obtain h2 rel where st2: "st2 = (h2, rel)" by (cases st2)
  note an = an0 [unfolded st2]
  from analyse_roots_distinct [OF an] have di: "distinct rel" by simp
  let ?s1 = "s\<lparr>gc_lock := True, suspected_object_set := [], list_lock := False, objects := h2\<rparr>"
  from w2 d2 r2 have "pass_ok (fst (?s1, ?roots, []::event list))"
    "set rel \<subseteq> fmdom' (objects (fst (?s1, ?roots, []::event list)))"
    by (simp_all add: pass_ok_def wf_heap_def st2)
  from release_all_succeeds [OF d this] obtain st3 where
    ra0: "release_all dtor rel (?s1, ?roots, []) = Some st3" and pe: "pass_ext ?s1 (fst st3)"
    by auto
  obtain s3 roots3 tr3 where st3: "st3 = (s3, roots3, tr3)" by (cases st3)
  note ra = ra0 [unfolded st3]
  from pe d2 r2 have d3: "set rel \<subseteq> fmdom' (fst (objects s3, tr3))" and l3: "\<not> list_lock s3"
    by (simp_all add: pass_ext_def pass_ok_def st3 st2)
  from free_all_succeeds [OF di d3] obtain st4 where f0: "free_all rel (objects s3, tr3) = Some st4"
    by blast
  obtain h4 tr4 where st4: "st4 = (h4, tr4)" by (cases st4)
  note f = f0 [unfolded st4]
  from l3 have "\<not> list_lock (s3\<lparr>objects := h4\<rparr>)" by simp
  from reenroll_props [OF this, of roots3] obtain s5 where
    e: "reenroll roots3 (s3\<lparr>objects := h4\<rparr>) = Some s5" by blast
  from ng nl an ra f e have "gc_collect dtor s = Some (s5\<lparr>gc_lock := False\<rparr>, tr4)"
    by (simp add: gc_collect_def swap_roots_def)
  then show ?thesis by blast
qed

lemma plain_decrement_preserves: "preserves_pass plain_decrement"
  unfolding preserves_pass_def
proof (intro allI impI, elim conjE)
  fix f s
  assume p: "pass_ok s" and f: "f \<in> fmdom' (objects s)"
  from f obtain ob where ob: "fmlookup (objects s) f = Some ob"
    by (auto simp: fmlookup_dom'_iff)
  define h' where "h' = fmupd f (ob\<lparr>reference_count := reference_count ob - 1\<rparr>) (objects s)"
  from ob have fs: "fetch_sub f (objects s) = Some (reference_count ob, h')"
    by (simp add: fetch_sub_def h'_def)
  then have pd: "plain_decrement f s = Some (s\<lparr>objects := h'\<rparr>)"
    by (simp add: plain_decrement_def)
  from f have dom: "fmdom' h' = fmdom' (objects s)" by (auto simp: h'_def)
  have fl: "fields_of h' x = fields_of (objects s) x" for x by (rule fetch_sub_fields [OF fs])
  from p have "pass_ext s (s\<lparr>objects := h'\<rparr>)"
    by (simp add: pass_ext_def pass_ok_def closed_heap_def dom fl)
  with pd show "\<exists>s'. plain_decrement f s = Some s' \<and> pass_ext s s'" by blast
qed

lemma tail_wf: "wf_heap cycle_with_tail"
  by (auto simp: wf_heap_def closed_heap_def cycle_with_tail_def fields_of_def locked_def
      example_object_def split: if_splits)

section \<open>Claims about termination\<close>

text \<open>
  C9.  Every traversal of the collector is a total function: the recursion of
  mark red, mark gray, mark white, mark black and the check of readiness is
  shown to end by the sets of objects not yet coloured, not yet gray, still
  gray, not yet black and not yet listed, which are finite and shrink at each
  visit.  On a heap in which every slot holds an allocated object and no lock
  is held, with a registry of allocated objects and the two global locks free,
  mark red from each root returns and lists no object twice, the analysis of
  all roots returns, and the whole pass returns for every destructor that
  itself returns and leaves such a heap with the same objects.
\<close>

theorem gc_collect_terminates:
  assumes "wf_heap (objects s)" "set (suspected_object_set s) \<subseteq> fmdom' (objects s)"
    "\<not> list_lock s" "\<not> gc_lock s"
  shows "(\<exists>h' release_objects.
        analyse_roots (suspected_object_set s) (objects s, []) = Some (h', release_objects)) \<and>
     (\<forall>root\<in>set (suspected_object_set s).
        \<exists>h1 color_map collect_objects is_cyclic_root.
          mark_red root root (objects s, Map.empty, [], False)
            = Some (h1, color_map, collect_objects, is_cyclic_root) \<and>
          distinct collect_objects \<and> set collect_objects = reach (objects s) root) \<and>
     (\<forall>dtor. preserves_pass dtor \<longrightarrow> (\<exists>s' tr. gc_collect dtor s = Some (s', tr)))"
proof -
  from assms(1,2) have "wf_heap (fst (objects s, []::addr list))"
    "set (suspected_object_set s) \<subseteq> fmdom' (fst (objects s, []::addr list))" by simp_all
  from analyse_roots_wf [OF this] have 1: "\<exists>h' release_objects.
        analyse_roots (suspected_object_set s) (objects s, []) = Some (h', release_objects)"
    by auto
  have 2: "\<exists>h1 color_map collect_objects is_cyclic_root.
          mark_red root root (objects s, Map.empty, [], False)
            = Some (h1, color_map, collect_objects, is_cyclic_root) \<and>
          distinct collect_objects \<and> set collect_objects = reach (objects s) root"
    if "root \<in> set (suspected_object_set s)" for root
  proof -
    from that assms(2) have r: "root \<in> fmdom' (objects s)" by auto
    from assms(1) have c: "closed_heap (objects s)"
      and u: "\<And>a. a \<in> fmdom' (objects s) \<Longrightarrow> \<not> locked (objects s) a"
      by (simp_all add: wf_heap_def)
    from closed_heap_reach [OF c r] u
    have "\<forall>x\<in>reach (objects s) root. x \<in> fmdom' (objects s) \<and> \<not> locked (objects s) x" by auto
    from mark_red_result [OF this] show ?thesis by blast
  qed
  from 1 2 gc_collect_returns [OF _ assms] show ?thesis by blast
qed

theorem gc_collect_terminates_witness:
  "\<exists>h' release_objects h1 color_map collect_objects is_cyclic_root s' tr.
     analyse_roots [0] (cycle_with_tail, []) = Some (h', release_objects) \<and>
     mark_red 0 0 (cycle_with_tail, Map.empty, [], False)
       = Some (h1, color_map, collect_objects, is_cyclic_root) \<and>
     distinct collect_objects \<and>
     gc_collect plain_decrement tail_runtime = Some (s', tr)"
proof -
  have a: "wf_heap (objects tail_runtime)"
    "set (suspected_object_set tail_runtime) \<subseteq> fmdom' (objects tail_runtime)"
    "\<not> list_lock tail_runtime" "\<not> gc_lock tail_runtime"
    by (simp_all add: tail_runtime_def tail_wf) (simp add: cycle_with_tail_def)
  have o: "objects tail_runtime = cycle_with_tail" "suspected_object_set tail_runtime = [0]"
    by (simp_all add: tail_runtime_def)
  from gc_collect_terminates [OF a] plain_decrement_preserves show ?thesis
    unfolding o by auto
qed

end
